theory Spec2Isabelle
  imports Complex_Main "HOL-Library.Multiset" "HOL-Library.AList" "HOL-Library.Extended_Nat"
begin

section \<open>The document model\<close>

text \<open>
  The functions of \<^verbatim>\<open>dxfapi.py\<close> work on a drawing document of a CAD library. The
  document is modelled by the data the functions read and write: the layer table, the
  block table, the line-style and text-style tables, and the entities of the primary
  space (the modelspace). A table is a list of entries in iteration order, each under its
  name as written in the drawing. The library finds a table entry by the lower-cased
  name; the source's own comparisons (\<^verbatim>\<open>layer.dxf.name == dest_layer\<close>,
  \<^verbatim>\<open>layer not in used_layers\<close>, \<^verbatim>\<open>referenced in graph\<close>) compare the names exactly.
\<close>

type_synonym vertex = "rat \<times> rat"

record entity =
  ent_type :: string          \<comment> \<open>\<^verbatim>\<open>entity.dxftype()\<close>\<close>
  ent_layer :: string         \<comment> \<open>\<^verbatim>\<open>entity.dxf.layer\<close>\<close>
  ent_color :: int            \<comment> \<open>\<^verbatim>\<open>entity.dxf.color\<close>\<close>
  ent_lineweight :: int       \<comment> \<open>\<^verbatim>\<open>entity.dxf.lineweight\<close>\<close>
  ent_linetype :: string      \<comment> \<open>\<^verbatim>\<open>entity.dxf.linetype\<close>\<close>
  ent_name :: string          \<comment> \<open>\<^verbatim>\<open>entity.dxf.name\<close>: the block an INSERT instantiates\<close>
  ent_closed :: bool          \<comment> \<open>\<^verbatim>\<open>entity.is_closed\<close> of an LWPOLYLINE\<close>
  ent_vertices :: "vertex list"  \<comment> \<open>\<^verbatim>\<open>entity.vertices()\<close> of an LWPOLYLINE\<close>

record layer =
  layer_name :: string
  layer_color :: int
  layer_lineweight :: int

record linetype =
  lt_name :: string
  lt_pattern :: "rat list"
  lt_description :: string

record text_style =
  st_name :: string
  st_font :: "string option"   \<comment> \<open>\<open>None\<close>: \<^verbatim>\<open>hasattr(text_style.dxf, "font")\<close> is false\<close>

record document =
  layers :: "layer list"
  blocks :: "(string \<times> entity list) list"
  linetypes :: "linetype list"
  styles :: "text_style list"
  modelspace :: "entity list"

datatype error =
    ValueError         \<comment> \<open>\<^verbatim>\<open>ValueError\<close>: the cycle check of the source, or a cloud of fewer than three vertices\<close>
  | TypeError          \<comment> \<open>\<^verbatim>\<open>TypeError\<close>: iterating \<^verbatim>\<open>None\<close>, or a call that lacks a required argument\<close>
  | KeyError           \<comment> \<open>\<^verbatim>\<open>graph[node]\<close> for a node that is no key of the graph\<close>
  | DXFValueError      \<comment> \<open>the library refuses a value\<close>
  | DXFStructureError  \<comment> \<open>the library cannot expand an INSERT\<close>

section \<open>Names\<close>

definition upper_char :: "char \<Rightarrow> char" where
  "upper_char c = (let n = (of_char c :: nat) in if 97 \<le> n \<and> n \<le> 122 then char_of (n - 32) else c)"

definition lower_char :: "char \<Rightarrow> char" where
  "lower_char c = (let n = (of_char c :: nat) in if 65 \<le> n \<and> n \<le> 90 then char_of (n + 32) else c)"

definition upper :: "string \<Rightarrow> string" where
  "upper s = map upper_char s"

definition lower :: "string \<Rightarrow> string" where
  "lower s = map lower_char s"

definition startswith :: "string \<Rightarrow> string \<Rightarrow> bool" where
  "startswith s p = (take (length p) s = p)"

definition endswith :: "string \<Rightarrow> string \<Rightarrow> bool" where
  "endswith s p = (length p \<le> length s \<and> drop (length s - length p) s = p)"

text \<open>The key under which the library files and finds a table entry: the lower-cased name.\<close>

definition table_key :: "string \<Rightarrow> string" where
  "table_key n = lower n"

section \<open>The collaborators\<close>

text \<open>
  What the source consumes from outside its own file and what this development does not
  fix by a definition is a parameter of the model: the expansion of a nested reference by
  the document library (which may raise), the library's refusal to delete a block that is
  still in use, whether the library can copy an entity into another space (the copy
  carries the attributes of its original), the synthesis of a revision cloud from a vertex
  sequence and an arc radius (which may raise), the creation of a layer entry from a name
  and a color (which may raise), the order in which the Python runtime iterates over a
  set, given the sequence of its insertions, and the runtime's floating-point product.
\<close>

record env =
  explode :: "(string \<times> entity list) list \<Rightarrow> entity \<Rightarrow> error + entity list"
  block_deletable :: "document \<Rightarrow> string \<Rightarrow> bool"
  entity_copyable :: "entity \<Rightarrow> bool"
  revcloud_add_entity :: "vertex list \<Rightarrow> rat \<Rightarrow> error + entity"
  layers_add :: "string \<Rightarrow> int \<Rightarrow> error + layer"
  set_iter :: "string list \<Rightarrow> string list"
  float_mul :: "rat \<Rightarrow> rat \<Rightarrow> rat"

section \<open>Loops that may raise\<close>

text \<open>A \<^verbatim>\<open>for\<close> loop whose body may raise, or may not return.\<close>

fun for_each :: "('a \<Rightarrow> 's \<Rightarrow> (error + 's) option) \<Rightarrow> 'a list \<Rightarrow> 's \<Rightarrow> (error + 's) option" where
  "for_each body [] s = Some (Inr s)"
| "for_each body (x # xs) s =
     (case body x s of
        None \<Rightarrow> None
      | Some (Inl e) \<Rightarrow> Some (Inl e)
      | Some (Inr s') \<Rightarrow> for_each body xs s')"

text \<open>A \<^verbatim>\<open>for\<close> loop whose body may raise and always returns.\<close>

fun for_each_err :: "('a \<Rightarrow> 's \<Rightarrow> error + 's) \<Rightarrow> 'a list \<Rightarrow> 's \<Rightarrow> error + 's" where
  "for_each_err body [] s = Inr s"
| "for_each_err body (x # xs) s =
     (case body x s of
        Inl e \<Rightarrow> Inl e
      | Inr s' \<Rightarrow> for_each_err body xs s')"

text \<open>Sequencing: the second step runs on the result of the first, if there is one.\<close>

definition and_then :: "(error + 'a) option \<Rightarrow> ('a \<Rightarrow> (error + 'b) option) \<Rightarrow> (error + 'b) option" where
  "and_then m f = (case m of None \<Rightarrow> None | Some (Inl e) \<Rightarrow> Some (Inl e) | Some (Inr x) \<Rightarrow> f x)"

section \<open>Layers\<close>

definition list_current_layers :: "document \<Rightarrow> string list" where
  "list_current_layers doc = map layer_name (layers doc)"

text \<open>
  \<^verbatim>\<open>dest_layer not in doc.layers\<close> is the library's membership test, by key;
  \<^verbatim>\<open>doc.layers.add(name=..., color=...)\<close> is the library's.
\<close>

definition create_layer :: "env \<Rightarrow> document \<Rightarrow> string \<Rightarrow> int \<Rightarrow> error + document" where
  "create_layer E doc dest_layer dest_color =
     (if table_key dest_layer \<notin> set (map (\<lambda>l. table_key (layer_name l)) (layers doc))
      then (case layers_add E dest_layer dest_color of
              Inl e \<Rightarrow> Inl e
            | Inr l \<Rightarrow> Inr (doc\<lparr>layers := layers doc @ [l]\<rparr>))
      else Inr doc)"

text \<open>Python's \<^verbatim>\<open>int(x)\<close> on a floating-point number: truncation toward zero.\<close>

definition py_int :: "rat \<Rightarrow> int" where
  "py_int x = (if 0 \<le> x then \<lfloor>x\<rfloor> else \<lceil>x\<rceil>)"

text \<open>
  The assignment \<^verbatim>\<open>layer.dxf.lineweight = v\<close> goes through the library's validating
  setter: a value that is no valid line-weight is replaced, a value below \<open>- 3\<close> by
  \<open>- 1\<close>, a value above \<open>211\<close> by \<open>211\<close>, any other by the next larger valid
  line-weight.
\<close>

definition valid_lineweights :: "int list" where
  "valid_lineweights =
     [0, 5, 9, 13, 15, 18, 20, 25, 30, 35, 40, 50, 53, 60, 70, 80, 90, 100, 106, 120, 140,
      158, 200, 211]"

definition fix_lineweight :: "int \<Rightarrow> int" where
  "fix_lineweight v =
     (if v \<in> set valid_lineweights \<or> v = - 1 \<or> v = - 2 \<or> v = - 3 then v
      else if v < - 3 then - 1
      else if 211 < v then 211
      else hd (filter (\<lambda>u. v < u) valid_lineweights))"

definition change_lineweight :: "env \<Rightarrow> document \<Rightarrow> string \<Rightarrow> rat \<Rightarrow> document" where
  "change_lineweight E doc dest_layer dest_lineweight =
     doc\<lparr>layers := map (\<lambda>l. if layer_name l = dest_layer
                              then l\<lparr>layer_lineweight :=
                                      fix_lineweight (py_int (float_mul E dest_lineweight 10))\<rparr>
                              else l) (layers doc)\<rparr>"

text \<open>\<^verbatim>\<open>doc.layers.remove(name)\<close>: the entry of that name leaves the table.\<close>

definition layers_remove :: "string \<Rightarrow> document \<Rightarrow> document" where
  "layers_remove n doc = doc\<lparr>layers := filter (\<lambda>l. layer_name l \<noteq> n) (layers doc)\<rparr>"

definition used_layers :: "document \<Rightarrow> string list" where
  "used_layers doc =
     (let used0 = map ent_layer (modelspace doc);
          used1 = (if ''Defpoints'' \<notin> set used0 then used0 @ [''Defpoints''] else used0)
      in (if ''0'' \<notin> set used1 then used1 @ [''0''] else used1))"

definition remove_unused_layers :: "document \<Rightarrow> document" where
  "remove_unused_layers doc =
     (let all_layers = map layer_name (layers doc);
          unused = filter (\<lambda>l. l \<notin> set (used_layers doc)) all_layers
      in fold layers_remove unused doc)"

definition change_layer :: "entity list \<Rightarrow> string \<Rightarrow> string \<Rightarrow> entity list" where
  "change_layer msp l dest_layer =
     map (\<lambda>e. if ent_layer e = l then e\<lparr>ent_layer := dest_layer\<rparr> else e) msp"

section \<open>Utilities\<close>

definition is_insert :: "entity \<Rightarrow> bool" where
  "is_insert entity = (ent_type entity = ''INSERT'')"

text \<open>
  One run of the inner \<^verbatim>\<open>for\<close> loop of \<^verbatim>\<open>explode_drawing\<close> over the snapshot
  \<^verbatim>\<open>list(msp)\<close>: the expansion of an INSERT is added to the space, then the INSERT is
  deleted from it.
\<close>

definition explode_pass ::
  "env \<Rightarrow> (string \<times> entity list) list \<Rightarrow> entity list \<Rightarrow> error + entity list" where
  "explode_pass E bs msp =
     for_each_err
       (\<lambda>entity m. if is_insert entity
                    then (case explode E bs entity of
                            Inl e \<Rightarrow> Inl e
                          | Inr new \<Rightarrow> Inr (remove1 entity (m @ new)))
                    else Inr m)
       msp msp"

text \<open>The \<^verbatim>\<open>while\<close> loop; the fuel bounds the number of its iterations.\<close>

primrec explode_drawing ::
  "nat \<Rightarrow> env \<Rightarrow> (string \<times> entity list) list \<Rightarrow> entity list \<Rightarrow> (error + entity list) option" where
  "explode_drawing 0 E bs msp = (if list_ex is_insert msp then None else Some (Inr msp))"
| "explode_drawing (Suc fuel) E bs msp =
     (if list_ex is_insert msp
      then (case explode_pass E bs msp of
              Inl e \<Rightarrow> Some (Inl e)
            | Inr msp' \<Rightarrow> explode_drawing fuel E bs msp')
      else Some (Inr msp))"

section \<open>Blocks\<close>

text \<open>
  \<^verbatim>\<open>doc.blocks.block_names()\<close> gives the keys of the block table, the lower-cased names;
  \<^verbatim>\<open>doc.blocks.get(name)\<close> finds a block by the key of the name.
\<close>

definition block_names :: "document \<Rightarrow> string list" where
  "block_names doc = map (\<lambda>b. table_key (fst b)) (blocks doc)"

definition blocks_get :: "(string \<times> entity list) list \<Rightarrow> string \<Rightarrow> entity list option" where
  "blocks_get bs n = map_of (map (\<lambda>b. (table_key (fst b), snd b)) bs) (table_key n)"

definition get_removable_blocks :: "document \<Rightarrow> string list" where
  "get_removable_blocks doc =
     filter (\<lambda>block_name. \<not> (startswith (upper block_name) ''*MODEL_SPACE''
                             \<or> startswith (upper block_name) ''*PAPER_SPACE''))
       (block_names doc)"

text \<open>
  The dependency graph is a Python dict from block names to sets of block names: an
  association list in insertion order of the keys, each key with the list of the elements
  of its set.
\<close>

type_synonym graph = "(string \<times> string list) list"

definition graph_init :: "string list \<Rightarrow> graph" where
  "graph_init removable = fold (\<lambda>block g. AList.update block [] g) removable []"

definition add_reference :: "string \<Rightarrow> entity \<Rightarrow> graph \<Rightarrow> graph" where
  "add_reference block entity g =
     (if ent_type entity = ''INSERT''
      then (let referenced = ent_name entity
            in if referenced \<in> fst ` set g
               then AList.map_entry block (List.insert referenced) g else g)
      else g)"

definition add_references :: "string \<Rightarrow> entity list \<Rightarrow> graph \<Rightarrow> graph" where
  "add_references block block_def g = fold (add_reference block) block_def g"

fun build_graph :: "(string \<times> entity list) list \<Rightarrow> string list \<Rightarrow> graph \<Rightarrow> error + graph" where
  "build_graph bs [] g = Inr g"
| "build_graph bs (block # rest) g =
     (case blocks_get bs block of
        None \<Rightarrow> Inl TypeError
      | Some block_def \<Rightarrow> build_graph bs rest (add_references block block_def g))"

record dfs_state =
  dfs_visited :: "string \<rightharpoonup> nat"   \<comment> \<open>1: visiting, 2: visited\<close>
  dfs_order :: "string list"

text \<open>
  The nested function \<^verbatim>\<open>dfs\<close>. The fuel bounds the depth of the recursion; \<open>None\<close> is a
  recursion deeper than the fuel allows.
\<close>

primrec dfs :: "nat \<Rightarrow> env \<Rightarrow> graph \<Rightarrow> string \<Rightarrow> dfs_state \<Rightarrow> (error + dfs_state) option" where
  "dfs 0 E g node st = None"
| "dfs (Suc fuel) E g node st =
     (case dfs_visited st node of
        Some c \<Rightarrow> if c = 1 then Some (Inl ValueError) else Some (Inr st)
      | None \<Rightarrow>
          (case map_of g node of
             None \<Rightarrow> Some (Inl KeyError)
           | Some neighbors \<Rightarrow>
               (case for_each (dfs fuel E g) (set_iter E neighbors)
                       (st\<lparr>dfs_visited := (dfs_visited st)(node \<mapsto> 1)\<rparr>) of
                  None \<Rightarrow> None
                | Some (Inl e) \<Rightarrow> Some (Inl e)
                | Some (Inr st') \<Rightarrow>
                    Some (Inr (st'\<lparr>dfs_visited := (dfs_visited st')(node \<mapsto> 2),
                                   dfs_order := dfs_order st' @ [node]\<rparr>)))))"

definition get_deletion_order ::
  "nat \<Rightarrow> env \<Rightarrow> (string \<times> entity list) list \<Rightarrow> string list \<Rightarrow> (error + string list) option" where
  "get_deletion_order fuel E bs removable =
     (case build_graph bs removable (graph_init removable) of
        Inl e \<Rightarrow> Some (Inl e)
      | Inr g \<Rightarrow>
          (case for_each (\<lambda>node st. if dfs_visited st node = None then dfs fuel E g node st
                                     else Some (Inr st))
                  (map fst g) \<lparr>dfs_visited = Map.empty, dfs_order = []\<rparr> of
             None \<Rightarrow> None
           | Some (Inl e) \<Rightarrow> Some (Inl e)
           | Some (Inr st) \<Rightarrow> Some (Inr (rev (dfs_order st)))))"

text \<open>
  \<^verbatim>\<open>sorted(removable, key=len, reverse=True)\<close>: the runtime reverses the list, sorts it
  stably by the key, and reverses the result.
\<close>

definition sorted_len_reverse :: "string list \<Rightarrow> string list" where
  "sorted_len_reverse removable = rev (sort_key length (rev removable))"

text \<open>The first half of \<^verbatim>\<open>purge_blocks\<close>: the deletion order, with the fallback.\<close>

definition purge_deletion_order :: "nat \<Rightarrow> env \<Rightarrow> document \<Rightarrow> (error + string list) option" where
  "purge_deletion_order fuel E doc =
     (let removable = get_removable_blocks doc
      in case get_deletion_order fuel E (blocks doc) removable of
           None \<Rightarrow> None
         | Some (Inl e) \<Rightarrow>
             if e = ValueError then Some (Inr (sorted_len_reverse removable)) else Some (Inl e)
         | Some (Inr deletion_order) \<Rightarrow> Some (Inr deletion_order))"

text \<open>
  \<^verbatim>\<open>doc.blocks.delete_block(block_name)\<close>: the library refuses, or the entry of that key
  leaves the block table.
\<close>

definition delete_block :: "env \<Rightarrow> document \<Rightarrow> string \<Rightarrow> document option" where
  "delete_block E doc block_name =
     (if block_deletable E doc block_name
      then Some (doc\<lparr>blocks := filter (\<lambda>b. table_key (fst b) \<noteq> table_key block_name) (blocks doc)\<rparr>)
      else None)"

text \<open>The second half: one deletion per name, a failing deletion leaves the document as it is.\<close>

definition delete_in_order :: "env \<Rightarrow> string list \<Rightarrow> document \<Rightarrow> document" where
  "delete_in_order E deletion_order doc =
     fold (\<lambda>block_name d. case delete_block E d block_name of Some d' \<Rightarrow> d' | None \<Rightarrow> d)
       deletion_order doc"

definition purge_blocks :: "nat \<Rightarrow> env \<Rightarrow> document \<Rightarrow> (error + document) option" where
  "purge_blocks fuel E doc =
     and_then (purge_deletion_order fuel E doc)
       (\<lambda>deletion_order. Some (Inr (delete_in_order E deletion_order doc)))"

section \<open>Logos and export\<close>

text \<open>
  The line-style loop of \<^verbatim>\<open>change_logos\<close>. The call
  \<^verbatim>\<open>doc_target.linetypes.add(linetype.dxf.name)\<close> passes the name alone, and the library's
  \<^verbatim>\<open>add\<close> requires the pattern: the call raises \<^verbatim>\<open>TypeError\<close> and creates nothing.
\<close>

definition copy_linetypes_logo :: "linetype list \<Rightarrow> document \<Rightarrow> error + document" where
  "copy_linetypes_logo source_linetypes doc_target =
     for_each_err
       (\<lambda>linetype t.
          if table_key (lt_name linetype) \<notin> set (map (\<lambda>l. table_key (lt_name l)) (linetypes t))
          then Inl TypeError
          else Inr t)
       source_linetypes doc_target"

definition copy_styles :: "text_style list \<Rightarrow> document \<Rightarrow> document" where
  "copy_styles source_styles doc_target =
     fold (\<lambda>text_style t.
             if table_key (st_name text_style) \<notin> set (map (\<lambda>s. table_key (st_name s)) (styles t))
             then (let font = (case st_font text_style of Some f \<Rightarrow> f | None \<Rightarrow> ''arial.ttf'')
                   in t\<lparr>styles := styles t @ [\<lparr>st_name = st_name text_style, st_font = Some font\<rparr>]\<rparr>)
             else t)
       source_styles doc_target"

text \<open>
  The entity loop: a copy that the library cannot make is skipped; a copy made carries the
  attributes of its original and is added at the end of the target space.
\<close>

definition copy_entities :: "env \<Rightarrow> entity list \<Rightarrow> entity list \<Rightarrow> entity list" where
  "copy_entities E msp_source msp_target =
     fold (\<lambda>entity m. if entity_copyable E entity then m @ [entity] else m)
       msp_source msp_target"

definition delete_images :: "entity list \<Rightarrow> entity list" where
  "delete_images msp_target = fold remove1 (filter (\<lambda>e. ent_type e = ''IMAGE'') msp_target) msp_target"

text \<open>
  \<^verbatim>\<open>change_logos\<close>; the source document read from the logo file is the argument
  \<open>doc_source\<close>.
\<close>

definition change_logos :: "nat \<Rightarrow> env \<Rightarrow> document \<Rightarrow> document \<Rightarrow> (error + document) option" where
  "change_logos fuel E doc_source doc_target =
     and_then (explode_drawing fuel E (blocks doc_source) (modelspace doc_source))
       (\<lambda>msp_source.
     and_then (purge_blocks fuel E (doc_source\<lparr>modelspace := msp_source\<rparr>))
       (\<lambda>src.
     and_then (Some (copy_linetypes_logo (linetypes src)
                       (doc_target\<lparr>modelspace := delete_images (modelspace doc_target)\<rparr>)))
       (\<lambda>t2.
          (let t3 = copy_styles (styles src) t2
           in Some (Inr (t3\<lparr>modelspace := copy_entities E (modelspace src) (modelspace t3)\<rparr>))))))"

text \<open>
  The sort key of \<^verbatim>\<open>export_single_file\<close>: the number that
  \<^verbatim>\<open>re.search(r"_(\d+)\.dxf$", f)\<close> captures, or infinity. The pattern matches when the
  name ends with \<^verbatim>\<open>.dxf\<close> and the longest run of digits before that ending is not empty
  and follows an underscore.
\<close>

definition is_digit :: "char \<Rightarrow> bool" where
  "is_digit c = (let n = (of_char c :: nat) in 48 \<le> n \<and> n \<le> 57)"

definition int_of_digits :: "string \<Rightarrow> nat" where
  "int_of_digits ds = foldl (\<lambda>acc c. 10 * acc + (of_char c - 48)) 0 ds"

definition suffix_number :: "string \<Rightarrow> nat option" where
  "suffix_number f =
     (if endswith f ''.dxf''
      then (let stem = rev (take (length f - 4) f);
                digits = rev (takeWhile is_digit stem);
                rest = dropWhile is_digit stem
            in if digits \<noteq> [] \<and> rest \<noteq> [] \<and> hd rest = CHR ''_''
               then Some (int_of_digits digits) else None)
      else None)"

definition sort_key_file :: "string \<Rightarrow> enat" where
  "sort_key_file f = (case suffix_number f of Some n \<Rightarrow> enat n | None \<Rightarrow> \<infinity>)"

definition sorted_dxf_files :: "string list \<Rightarrow> string list" where
  "sorted_dxf_files listing =
     sort_key sort_key_file (filter (\<lambda>f. endswith (lower f) ''.dxf'') listing)"

fun str_nat :: "nat \<Rightarrow> string" where
  "str_nat n = (if n < 10 then [char_of (48 + n)] else str_nat (n div 10) @ [char_of (48 + n mod 10)])"

text \<open>The sheet of each file: \<^verbatim>\<open>FL{i+1}\<close> for the file at index \<open>i\<close> of the sorted list.\<close>

definition export_sheets :: "string list \<Rightarrow> (string \<times> string) list" where
  "export_sheets listing =
     (let files = sorted_dxf_files listing
      in map (\<lambda>i. (''FL'' @ str_nat (i + 1), files ! i)) [0..<length files])"

section \<open>Revision clouds\<close>

definition revcloud_scan ::
  "string list \<Rightarrow> entity \<Rightarrow> entity list \<times> vertex list list \<times> string list
     \<Rightarrow> entity list \<times> vertex list list \<times> string list" where
  "revcloud_scan revcloud_layers entity acc =
     (case acc of (msp, all_polylines, all_layers) \<Rightarrow>
        (let l = ent_layer entity
         in if l \<in> set revcloud_layers
            then (let all_layers' = all_layers @ [l]
                  in if ent_type entity = ''LWPOLYLINE''
                     then (if ent_closed entity
                           then (remove1 entity msp, all_polylines @ [ent_vertices entity],
                                 all_layers')
                           else (msp, all_polylines, all_layers'))
                     else (msp, all_polylines, all_layers'))
            else (msp, all_polylines, all_layers)))"

definition create_revcloud ::
  "env \<Rightarrow> entity list \<Rightarrow> string list \<Rightarrow> rat \<Rightarrow> error + entity list" where
  "create_revcloud E msp revcloud_layers arc_radius =
     (case fold (revcloud_scan revcloud_layers) msp (msp, [], []) of
        (msp', all_polylines, all_layers) \<Rightarrow>
          for_each_err
            (\<lambda>(polyline, l) m.
               case revcloud_add_entity E polyline arc_radius of
                 Inl e \<Rightarrow> Inl e
               | Inr revcloud \<Rightarrow> Inr (m @ [revcloud\<lparr>ent_layer := l\<rparr>]))
            (zip all_polylines all_layers) msp')"

section \<open>The per-document pipeline\<close>

record remap_row =
  currentLayer :: string
  newLayer :: "string option"
  colorID :: "int option"
  lineweight :: "rat option"
  lineType :: "string option"

definition remap_layer :: "env \<Rightarrow> remap_row list \<Rightarrow> string \<Rightarrow> document \<Rightarrow> error + document" where
  "remap_layer E layers_to_modify l doc =
     (case find (\<lambda>r. currentLayer r = l) layers_to_modify of
        None \<Rightarrow> Inr doc
      | Some row \<Rightarrow>
          (let dest_layer = (case newLayer row of Some n \<Rightarrow> n | None \<Rightarrow> ''fallback'');
               dest_color = (case colorID row of Some c \<Rightarrow> c | None \<Rightarrow> 256);
               dest_lineweight = (case lineweight row of Some w \<Rightarrow> w | None \<Rightarrow> 0)
           in case create_layer E doc dest_layer dest_color of
                Inl e \<Rightarrow> Inl e
              | Inr d1 \<Rightarrow>
                  Inr (change_lineweight E
                         (d1\<lparr>modelspace := change_layer (modelspace d1) l dest_layer\<rparr>)
                         dest_layer dest_lineweight)))"

definition remap_layers :: "env \<Rightarrow> remap_row list \<Rightarrow> document \<Rightarrow> error + document" where
  "remap_layers E df doc =
     (let layers_to_modify = filter (\<lambda>r. currentLayer r \<in> set (list_current_layers doc)) df
      in for_each_err (remap_layer E layers_to_modify) (map currentLayer layers_to_modify) doc)"

definition reset_bylayer :: "entity list \<Rightarrow> entity list" where
  "reset_bylayer msp =
     map (\<lambda>entity. entity\<lparr>ent_color := 256, ent_lineweight := - 1, ent_linetype := ''BYLAYER''\<rparr>) msp"

text \<open>
  The body of the loop of \<^verbatim>\<open>adjust_layer\<close> for one document, from the document as read
  to the document as saved, in two parts: the steps before the logo merge (explode, purge,
  prune, remap, reset of the styling), and the steps from the merge on (merge, prune,
  clouds).
\<close>

definition prepare_document ::
  "nat \<Rightarrow> env \<Rightarrow> remap_row list \<Rightarrow> document \<Rightarrow> (error + document) option" where
  "prepare_document fuel E df doc =
     and_then (explode_drawing fuel E (blocks doc) (modelspace doc))
       (\<lambda>msp.
     and_then (purge_blocks fuel E (doc\<lparr>modelspace := msp\<rparr>))
       (\<lambda>d2.
     and_then (Some (remap_layers E df (remove_unused_layers d2)))
       (\<lambda>d4. Some (Inr (d4\<lparr>modelspace := reset_bylayer (modelspace d4)\<rparr>)))))"

definition finish_document ::
  "nat \<Rightarrow> env \<Rightarrow> document \<Rightarrow> string list \<Rightarrow> rat \<Rightarrow> document \<Rightarrow> (error + document) option" where
  "finish_document fuel E logo revcloud_layers arc_radius d5 =
     and_then (change_logos fuel E logo d5)
       (\<lambda>d6.
          (let d7 = remove_unused_layers d6
           in and_then (Some (create_revcloud E (modelspace d7) revcloud_layers arc_radius))
                (\<lambda>msp'. Some (Inr (d7\<lparr>modelspace := msp'\<rparr>)))))"

definition adjust_document ::
  "nat \<Rightarrow> env \<Rightarrow> document \<Rightarrow> remap_row list \<Rightarrow> string list \<Rightarrow> rat \<Rightarrow> document
     \<Rightarrow> (error + document) option" where
  "adjust_document fuel E logo df revcloud_layers arc_radius doc =
     and_then (prepare_document fuel E df doc)
       (finish_document fuel E logo revcloud_layers arc_radius)"

section \<open>Notions used to state the properties\<close>

text \<open>
  The graph that \<^verbatim>\<open>get_deletion_order\<close> builds over the removable names: the pair
  \<open>(a, b)\<close> stands for "the block found under \<open>a\<close> holds an INSERT whose block name, as
  written, is the element \<open>b\<close> of the removable list".
\<close>

definition reference_edges :: "(string \<times> entity list) list \<Rightarrow> string list \<Rightarrow> (string \<times> string) list" where
  "reference_edges bs removable =
     concat (map (\<lambda>a. case blocks_get bs a of
                         None \<Rightarrow> []
                       | Some block_def \<Rightarrow>
                           map (\<lambda>entity. (a, ent_name entity))
                             (filter (\<lambda>entity. ent_type entity = ''INSERT''
                                               \<and> ent_name entity \<in> set removable) block_def))
                 removable)"

text \<open>
  The references of the document: \<open>(a, b)\<close> stands for "the block found under \<open>a\<close> holds an
  INSERT of the block found under \<open>b\<close>", for removable \<open>a\<close> and \<open>b\<close>; the INSERT names its
  block as the library resolves names, by key.
\<close>

definition document_references :: "(string \<times> entity list) list \<Rightarrow> string list \<Rightarrow> (string \<times> string) list" where
  "document_references bs removable =
     concat (map (\<lambda>a. case blocks_get bs a of
                         None \<Rightarrow> []
                       | Some block_def \<Rightarrow>
                           concat (map (\<lambda>entity.
                                     map (\<lambda>b. (a, b))
                                       (filter (\<lambda>b. table_key b = table_key (ent_name entity)) removable))
                             (filter (\<lambda>entity. ent_type entity = ''INSERT'') block_def)))
                 removable)"

text \<open>\<open>a\<close> occurs in the list, and \<open>b\<close> occurs after the first occurrence of \<open>a\<close>.\<close>

definition appears_before :: "'a \<Rightarrow> 'a \<Rightarrow> 'a list \<Rightarrow> bool" where
  "appears_before a b xs = (b \<in> set (tl (dropWhile (\<lambda>x. x \<noteq> a) xs)))"

definition graph_edges :: "env \<Rightarrow> graph \<Rightarrow> (string \<times> string) set" where
  "graph_edges E g = {(a, b). \<exists>s. map_of g a = Some s \<and> b \<in> set (set_iter E s)}"

definition adj :: "graph \<Rightarrow> string \<Rightarrow> string set" where
  "adj g k = (case map_of g k of Some s \<Rightarrow> set s | None \<Rightarrow> {})"

text \<open>The loop of \<^verbatim>\<open>get_deletion_order\<close> over the nodes of the graph.\<close>

abbreviation visit_all :: "nat \<Rightarrow> env \<Rightarrow> graph \<Rightarrow> (error + dfs_state) option" where
  "visit_all fuel E g \<equiv>
     for_each (\<lambda>node st. if dfs_visited st node = None then dfs fuel E g node st
                            else Some (Inr st))
       (map fst g) \<lparr>dfs_visited = Map.empty, dfs_order = []\<rparr>"

definition visiting :: "dfs_state \<Rightarrow> string set" where
  "visiting st = {n. dfs_visited st n = Some 1}"

definition finished :: "dfs_state \<Rightarrow> string set" where
  "finished st = {n. \<exists>c. dfs_visited st n = Some c \<and> c \<noteq> 1}"

definition dfs_inv :: "env \<Rightarrow> graph \<Rightarrow> dfs_state \<Rightarrow> bool" where
  "dfs_inv E g st \<longleftrightarrow>
     distinct (dfs_order st) \<and> set (dfs_order st) = finished st
     \<and> finished st \<subseteq> dom (map_of g)
     \<and> (\<forall>a b. (a, b) \<in> graph_edges E g \<longrightarrow> a \<in> finished st
            \<longrightarrow> appears_before a b (rev (dfs_order st)))"

definition graph_closed :: "env \<Rightarrow> graph \<Rightarrow> bool" where
  "graph_closed E g \<longleftrightarrow> (\<forall>(a, b) \<in> graph_edges E g. b \<in> dom (map_of g))"

text \<open>What the cloud step replaces: a closed polyline on one of the cloud layers.\<close>

definition is_boundary :: "string list \<Rightarrow> entity \<Rightarrow> bool" where
  "is_boundary revcloud_layers e \<longleftrightarrow>
     ent_layer e \<in> set revcloud_layers \<and> ent_type e = ''LWPOLYLINE'' \<and> ent_closed e"

section \<open>Example inputs\<close>

definition plain_entity :: "string \<Rightarrow> string \<Rightarrow> entity" where
  "plain_entity t l =
     \<lparr>ent_type = t, ent_layer = l, ent_color = 1, ent_lineweight = 25,
      ent_linetype = ''Continuous'', ent_name = [], ent_closed = False, ent_vertices = []\<rparr>"

definition insert_of :: "string \<Rightarrow> entity" where
  "insert_of b = (plain_entity ''INSERT'' ''0'')\<lparr>ent_name := b\<rparr>"

text \<open>
  A collaborator for the examples. An INSERT expands to the entities of its block, and
  the expansion of an INSERT of a missing block raises. A block is deletable when no INSERT
  of the document refers to it. Every entity can be copied. A cloud is a closed polyline
  on layer \<open>0\<close> with inherited styling, and fewer than three vertices raise. A new layer
  takes a color from 1 to 255 as given, 7 for 0, 256 and 257, and any other color raises.
  A set is iterated in the order of its list, and the product is the exact one; the
  examples multiply only where the exact product is a floating-point number or where the
  integer part of the product does not depend on its rounding.
\<close>

definition plain_env :: env where
  "plain_env =
     \<lparr>explode = (\<lambda>bs e. case blocks_get bs (ent_name e) of
                           Some es \<Rightarrow> Inr es | None \<Rightarrow> Inl DXFStructureError),
      block_deletable = (\<lambda>d n. table_key n \<notin>
         set (map (\<lambda>e. table_key (ent_name e))
                (filter is_insert (modelspace d @ concat (map snd (blocks d)))))),
      entity_copyable = (\<lambda>e. True),
      revcloud_add_entity = (\<lambda>vs r. if length vs < 3 then Inl ValueError else
         Inr \<lparr>ent_type = ''LWPOLYLINE'', ent_layer = ''0'', ent_color = 256,
              ent_lineweight = - 1, ent_linetype = ''BYLAYER'', ent_name = [], ent_closed = True,
              ent_vertices = vs\<rparr>),
      layers_add = (\<lambda>n c. if 0 \<le> c \<and> c \<le> 257
         then Inr \<lparr>layer_name = n, layer_color = (if 1 \<le> c \<and> c \<le> 255 then c else 7),
                   layer_lineweight = - 1\<rparr>
         else Inl DXFValueError),
      set_iter = (\<lambda>xs. xs),
      float_mul = (\<lambda>x y. x * y)\<rparr>"

definition standard_linetypes :: "linetype list" where
  "standard_linetypes =
     [\<lparr>lt_name = ''ByBlock'', lt_pattern = [], lt_description = []\<rparr>,
      \<lparr>lt_name = ''ByLayer'', lt_pattern = [], lt_description = []\<rparr>,
      \<lparr>lt_name = ''Continuous'', lt_pattern = [], lt_description = ''Solid line''\<rparr>]"

definition standard_styles :: "text_style list" where
  "standard_styles = [\<lparr>st_name = ''Standard'', st_font = Some ''txt''\<rparr>]"

definition chain_doc :: document where
  "chain_doc =
     \<lparr>layers = [\<lparr>layer_name = ''0'', layer_color = 7, layer_lineweight = - 3\<rparr>],
      blocks = [(''*Model_Space'', []), (''*Paper_Space'', []),
                (''A'', [insert_of ''B'']), (''B'', [insert_of ''C'']), (''C'', [])],
      linetypes = standard_linetypes, styles = standard_styles, modelspace = []\<rparr>"

definition cyclic_doc :: document where
  "cyclic_doc =
     \<lparr>layers = [\<lparr>layer_name = ''0'', layer_color = 7, layer_lineweight = - 3\<rparr>],
      blocks = [(''*Model_Space'', []), (''*Paper_Space'', []),
                (''AA'', [insert_of ''B'']), (''B'', [insert_of ''AA''])],
      linetypes = standard_linetypes, styles = standard_styles, modelspace = []\<rparr>"

definition cloud_space :: "entity list" where
  "cloud_space =
     [plain_entity ''LINE'' ''REV_A'',
      (plain_entity ''LWPOLYLINE'' ''REV_B'')\<lparr>ent_closed := True,
         ent_vertices := [(0, 0), (10, 0), (10, 10)]\<rparr>]"

definition logo_line :: entity where
  "logo_line = (plain_entity ''LINE'' ''LOGO'')\<lparr>ent_color := 5\<rparr>"

definition logo_source :: document where
  "logo_source =
     \<lparr>layers = [\<lparr>layer_name = ''0'', layer_color = 7, layer_lineweight = - 3\<rparr>,
                \<lparr>layer_name = ''LOGO'', layer_color = 5, layer_lineweight = 30\<rparr>],
      blocks = [(''*Model_Space'', []), (''*Paper_Space'', [])],
      linetypes = standard_linetypes,
      styles = standard_styles,
      modelspace = [logo_line]\<rparr>"

definition dashed_logo :: document where
  "dashed_logo =
     logo_source\<lparr>linetypes := standard_linetypes @
        [\<lparr>lt_name = ''DASHED'', lt_pattern = [3 / 4, 1 / 2, - (1 / 4)],
          lt_description = ''Dashed __ __ __''\<rparr>]\<rparr>"

definition drawing :: document where
  "drawing =
     \<lparr>layers = [\<lparr>layer_name = ''0'', layer_color = 7, layer_lineweight = - 3\<rparr>,
                \<lparr>layer_name = ''WALLS'', layer_color = 1, layer_lineweight = 25\<rparr>],
      blocks = [(''*Model_Space'', []), (''*Paper_Space'', [])],
      linetypes = standard_linetypes,
      styles = standard_styles,
      modelspace = [plain_entity ''LINE'' ''WALLS'']\<rparr>"


definition adjusted_drawing :: document where
  "adjusted_drawing =
     drawing\<lparr>modelspace :=
        [(plain_entity ''LINE'' ''WALLS'')\<lparr>ent_color := 256, ent_lineweight := - 1,
              ent_linetype := ''BYLAYER''\<rparr>, logo_line]\<rparr>"

definition reserved_example :: document where
  "reserved_example =
     \<lparr>layers = [\<lparr>layer_name = ''0'', layer_color = 7, layer_lineweight = - 3\<rparr>,
                \<lparr>layer_name = ''Defpoints'', layer_color = 7, layer_lineweight = - 3\<rparr>,
                \<lparr>layer_name = ''WALLS'', layer_color = 1, layer_lineweight = 25\<rparr>],
      blocks = [], linetypes = [], styles = [], modelspace = []\<rparr>"

section \<open>Properties of the layer operations\<close>

lemma fold_layers_remove:
  "fold layers_remove ns doc =
     doc\<lparr>layers := filter (\<lambda>l. layer_name l \<notin> set ns) (layers doc)\<rparr>"
proof (induction ns arbitrary: doc)
  case Nil
  show ?case by simp
next
  case (Cons n ns)
  have "fold layers_remove (n # ns) doc = fold layers_remove ns (layers_remove n doc)"
    by simp
  also have "\<dots> = (layers_remove n doc)\<lparr>layers :=
                filter (\<lambda>l. layer_name l \<notin> set ns) (layers (layers_remove n doc))\<rparr>"
    by (rule Cons.IH)
  also have "\<dots> = doc\<lparr>layers := filter (\<lambda>l. layer_name l \<notin> set (n # ns)) (layers doc)\<rparr>"
    by (simp add: layers_remove_def)
  finally show ?case .
qed

lemma set_used_layers:
  "set (used_layers doc) = ent_layer ` set (modelspace doc) \<union> {''Defpoints'', ''0''}"
  by (auto simp: used_layers_def Let_def)

lemma remove_unused_layers_eq:
  "remove_unused_layers doc =
     doc\<lparr>layers := filter (\<lambda>l. layer_name l \<in> set (used_layers doc)) (layers doc)\<rparr>"
proof -
  have "filter (\<lambda>l. layer_name l \<notin>
            set (filter (\<lambda>l. l \<notin> set (used_layers doc)) (map layer_name (layers doc))))
          (layers doc)
      = filter (\<lambda>l. layer_name l \<in> set (used_layers doc)) (layers doc)"
    by (rule filter_cong) auto
  then show ?thesis
    by (simp add: remove_unused_layers_def Let_def fold_layers_remove)
qed

lemma modelspace_remove_unused_layers [simp]:
  "modelspace (remove_unused_layers doc) = modelspace doc"
  by (simp add: remove_unused_layers_eq)

lemma used_layers_remove_unused_layers [simp]:
  "used_layers (remove_unused_layers doc) = used_layers doc"
  by (simp add: used_layers_def)

text \<open>
  C8. Pruning unused layers is idempotent: a second call, with no entity change in
  between, leaves the document (and so its layer set) as the first call left it.
\<close>

theorem remove_unused_layers_idempotent:
  "remove_unused_layers (remove_unused_layers doc) = remove_unused_layers doc"
proof -
  have "remove_unused_layers (remove_unused_layers doc) =
          (remove_unused_layers doc)\<lparr>layers :=
             filter (\<lambda>l. layer_name l \<in> set (used_layers doc))
               (layers (remove_unused_layers doc))\<rparr>"
    using remove_unused_layers_eq [of "remove_unused_layers doc"] by simp
  also have "\<dots> = remove_unused_layers doc"
    by (simp add: remove_unused_layers_eq)
  finally show ?thesis .
qed

text \<open>
  C9. The reserved layers \<open>Defpoints\<close> and \<open>0\<close> survive pruning: every layer entry of
  the document that carries one of the two names is still in the layer table after
  \<open>remove_unused_layers\<close>, whatever the entities of the space are (also when there are
  none).
\<close>

theorem reserved_layers_never_removed:
  "\<forall>l \<in> set (layers doc).
     layer_name l = ''Defpoints'' \<or> layer_name l = ''0''
       \<longrightarrow> l \<in> set (layers (remove_unused_layers doc))"
  by (auto simp: remove_unused_layers_eq set_used_layers)

theorem reserved_layers_never_removed_witness:
  "map layer_name (layers reserved_example) = [''0'', ''Defpoints'', ''WALLS'']
   \<and> modelspace reserved_example = []
   \<and> map layer_name (layers (remove_unused_layers reserved_example)) = [''0'', ''Defpoints'']
   \<and> \<lparr>layer_name = ''0'', layer_color = 7, layer_lineweight = - 3\<rparr>
        \<in> set (layers (remove_unused_layers reserved_example))
   \<and> \<lparr>layer_name = ''Defpoints'', layer_color = 7, layer_lineweight = - 3\<rparr>
        \<in> set (layers (remove_unused_layers reserved_example))"
  using reserved_layers_never_removed [of reserved_example]
  by (simp add: reserved_example_def remove_unused_layers_eq used_layers_def)

section \<open>The traversal\<close>

lemma for_each_rule:
  assumes run: "for_each body xs s = Some (Inr s')"
    and init: "I s"
    and step: "\<And>x t t'. x \<in> set xs \<Longrightarrow> I t \<Longrightarrow> body x t = Some (Inr t') \<Longrightarrow> I t' \<and> R t t' \<and> Q x t'"
    and refl: "\<And>t. R t t"
    and trans: "\<And>a b c. R a b \<Longrightarrow> R b c \<Longrightarrow> R a c"
    and mono: "\<And>x t t'. Q x t \<Longrightarrow> R t t' \<Longrightarrow> Q x t'"
  shows "I s' \<and> R s s' \<and> (\<forall>x\<in>set xs. Q x s')"
  using run init step
proof (induction xs arbitrary: s)
  case Nil
  then show ?case using refl by simp
next
  case (Cons x xs)
  from Cons.prems(1) obtain t where bx: "body x s = Some (Inr t)"
    and rest: "for_each body xs t = Some (Inr s')"
    by (auto split: option.splits sum.splits)
  have st: "I t \<and> R s t \<and> Q x t"
    using Cons.prems(3) [of x s t] Cons.prems(2) bx by simp
  have ih: "I s' \<and> R t s' \<and> (\<forall>y\<in>set xs. Q y s')"
    by (rule Cons.IH [OF rest]) (use st Cons.prems(3) in auto)
  show ?case
    using st ih trans mono by auto
qed

lemma for_each_result:
  assumes init: "I s"
    and step: "\<And>x t. x \<in> set xs \<Longrightarrow> I t \<Longrightarrow>
       (case body x t of None \<Rightarrow> PN | Some (Inl e) \<Rightarrow> PE e | Some (Inr t') \<Rightarrow> I t')"
  shows "case for_each body xs s of None \<Rightarrow> PN | Some (Inl e) \<Rightarrow> PE e | Some (Inr s') \<Rightarrow> I s'"
  using init step
proof (induction xs arbitrary: s)
  case Nil
  then show ?case by simp
next
  case (Cons x xs)
  have sx: "case body x s of None \<Rightarrow> PN | Some (Inl e) \<Rightarrow> PE e | Some (Inr t') \<Rightarrow> I t'"
    using Cons.prems(2) [of x s] Cons.prems(1) by simp
  show ?case
  proof (cases "body x s")
    case None
    then show ?thesis using sx by simp
  next
    case (Some r)
    show ?thesis
    proof (cases r)
      case (Inl e)
      then show ?thesis using sx Some by simp
    next
      case (Inr t)
      have "I t" using sx Some Inr by simp
      then have "case for_each body xs t of None \<Rightarrow> PN | Some (Inl e) \<Rightarrow> PE e | Some (Inr s') \<Rightarrow> I s'"
        by (rule Cons.IH) (use Cons.prems(2) in auto)
      then show ?thesis using Some Inr by simp
    qed
  qed
qed

lemma visiting_mark1: "dfs_visited st n = None \<Longrightarrow>
   visiting (st\<lparr>dfs_visited := (dfs_visited st)(n \<mapsto> 1)\<rparr>) = insert n (visiting st)"
  by (auto simp: visiting_def)

lemma finished_mark1: "dfs_visited st n = None \<Longrightarrow>
   finished (st\<lparr>dfs_visited := (dfs_visited st)(n \<mapsto> 1)\<rparr>) = finished st"
  by (auto simp: finished_def)

lemma visiting_mark2:
   "visiting (st\<lparr>dfs_visited := (dfs_visited st)(n \<mapsto> 2), dfs_order := os\<rparr>) = visiting st - {n}"
  by (auto simp: visiting_def)

lemma finished_mark2:
   "finished (st\<lparr>dfs_visited := (dfs_visited st)(n \<mapsto> 2), dfs_order := os\<rparr>) = insert n (finished st)"
  by (auto simp: finished_def)

lemma dfs_SucE:
  assumes "dfs (Suc fuel) E g n st = Some (Inr st')"
  obtains (seen) c where "dfs_visited st n = Some c" "c \<noteq> 1" "st' = st"
  | (fresh) s st2 where "dfs_visited st n = None" "map_of g n = Some s"
      "for_each (dfs fuel E g) (set_iter E s) (st\<lparr>dfs_visited := (dfs_visited st)(n \<mapsto> 1)\<rparr>) = Some (Inr st2)"
      "st' = st2\<lparr>dfs_visited := (dfs_visited st2)(n \<mapsto> 2), dfs_order := dfs_order st2 @ [n]\<rparr>"
  using assms by (auto split: option.splits sum.splits if_splits)


lemma dfs_visiting:
  "dfs fuel E g n st = Some (Inr st') \<Longrightarrow> visiting st' = visiting st"
proof (induction fuel arbitrary: n st st')
  case 0
  then show ?case by simp
next
  case (Suc fuel)
  from Suc.prems show ?case
  proof (cases rule: dfs_SucE)
    case (seen c)
    then show ?thesis by simp
  next
    case (fresh s st2)
    let ?st1 = "st\<lparr>dfs_visited := (dfs_visited st)(n \<mapsto> 1)\<rparr>"
    have step: "\<And>x t t'. x \<in> set (set_iter E s) \<Longrightarrow> True \<Longrightarrow> dfs fuel E g x t = Some (Inr t')
        \<Longrightarrow> True \<and> visiting t' = visiting t \<and> True"
      using Suc.IH by blast
    have "True \<and> visiting st2 = visiting ?st1 \<and> (\<forall>x\<in>set (set_iter E s). True)"
      by (rule for_each_rule [where I = "\<lambda>t. True" and R = "\<lambda>a b. visiting b = visiting a"
            and Q = "\<lambda>x t. True", OF fresh(3) TrueI step]) simp_all
    then have "visiting st2 = insert n (visiting st)"
      using visiting_mark1 [OF fresh(1)] by simp
    moreover have "n \<notin> visiting st"
      using fresh(1) by (simp add: visiting_def)
    ultimately show ?thesis
      using fresh(4) by (simp add: visiting_mark2)
  qed
qed

lemma appears_before_Cons:
  "appears_before a b (x # xs) = (if x = a then b \<in> set xs else appears_before a b xs)"
  by (simp add: appears_before_def)

lemma dfs_inv_step:
  "dfs fuel E g n st = Some (Inr st') \<Longrightarrow> dfs_inv E g st \<Longrightarrow>
     dfs_inv E g st' \<and> (visiting st' = visiting st \<and> finished st \<subseteq> finished st') \<and> n \<in> finished st'"
proof (induction fuel arbitrary: n st st')
  case 0
  then show ?case by simp
next
  case (Suc fuel)
  from Suc.prems(1) show ?case
  proof (cases rule: dfs_SucE)
    case (seen c)
    have "n \<in> finished st" using seen by (simp add: finished_def)
    then show ?thesis using Suc.prems(2) seen(3) by simp
  next
    case (fresh s st2)
    let ?st1 = "st\<lparr>dfs_visited := (dfs_visited st)(n \<mapsto> 1)\<rparr>"
    have inv1: "dfs_inv E g ?st1"
      using Suc.prems(2) finished_mark1 [OF fresh(1)] by (simp add: dfs_inv_def)
    have step: "\<And>x t t'. x \<in> set (set_iter E s) \<Longrightarrow> dfs_inv E g t \<Longrightarrow> dfs fuel E g x t = Some (Inr t')
        \<Longrightarrow> dfs_inv E g t' \<and> (visiting t' = visiting t \<and> finished t \<subseteq> finished t') \<and> x \<in> finished t'"
      using Suc.IH by blast
    have loop: "dfs_inv E g st2 \<and> (visiting st2 = visiting ?st1 \<and> finished ?st1 \<subseteq> finished st2)
        \<and> (\<forall>x\<in>set (set_iter E s). x \<in> finished st2)"
    proof (rule for_each_rule [where I = "dfs_inv E g"
          and R = "\<lambda>a b. visiting b = visiting a \<and> finished a \<subseteq> finished b"
          and Q = "\<lambda>x t. x \<in> finished t", OF fresh(3) inv1 step])
      show "\<And>t. visiting t = visiting t \<and> finished t \<subseteq> finished t" by simp
      show "\<And>a b c. visiting b = visiting a \<and> finished a \<subseteq> finished b \<Longrightarrow>
          visiting c = visiting b \<and> finished b \<subseteq> finished c \<Longrightarrow>
          visiting c = visiting a \<and> finished a \<subseteq> finished c" by auto
      show "\<And>x t t'. x \<in> finished t \<Longrightarrow> visiting t' = visiting t \<and> finished t \<subseteq> finished t' \<Longrightarrow> x \<in> finished t'"
        by auto
    qed
    have vis2: "visiting st2 = insert n (visiting st)"
      using loop visiting_mark1 [OF fresh(1)] by simp
    have fin2: "finished st \<subseteq> finished st2"
      using loop finished_mark1 [OF fresh(1)] by simp
    have "n \<in> visiting st2" using vis2 by simp
    then have n_nf: "n \<notin> finished st2" by (simp add: visiting_def finished_def)
    have inv2: "dfs_inv E g st2" using loop by simp
    have nbrs: "\<And>b. (n, b) \<in> graph_edges E g \<Longrightarrow> b \<in> finished st2"
    proof -
      fix b assume "(n, b) \<in> graph_edges E g"
      then have "b \<in> set (set_iter E s)" using fresh(2) by (simp add: graph_edges_def)
      then show "b \<in> finished st2" using loop by simp
    qed
    have fin': "finished st' = insert n (finished st2)"
      using fresh(4) by (simp add: finished_mark2)
    have ord': "dfs_order st' = dfs_order st2 @ [n]"
      using fresh(4) by simp
    have "dfs_inv E g st'"
      unfolding dfs_inv_def
    proof (intro conjI allI impI)
      show "distinct (dfs_order st')"
        using inv2 n_nf ord' by (simp add: dfs_inv_def)
      show "set (dfs_order st') = finished st'"
        using inv2 ord' fin' by (simp add: dfs_inv_def)
      show "finished st' \<subseteq> dom (map_of g)"
        using inv2 fresh(2) fin' by (auto simp: dfs_inv_def)
    next
      fix a b assume e: "(a, b) \<in> graph_edges E g" and a: "a \<in> finished st'"
      show "appears_before a b (rev (dfs_order st'))"
      proof (cases "a = n")
        case True
        then have "b \<in> finished st2" using nbrs e by simp
        then have "b \<in> set (dfs_order st2)" using inv2 by (simp add: dfs_inv_def)
        then show ?thesis using True ord' by (simp add: appears_before_Cons)
      next
        case False
        then have "a \<in> finished st2" using a fin' by simp
        then have "appears_before a b (rev (dfs_order st2))"
          using inv2 e by (simp add: dfs_inv_def)
        then show ?thesis using False ord' by (simp add: appears_before_Cons)
      qed
    qed
    moreover have "visiting st' = visiting st"
    proof -
      have "n \<notin> visiting st" using fresh(1) by (simp add: visiting_def)
      then show ?thesis using vis2 fresh(4) by (simp add: visiting_mark2)
    qed
    moreover have "finished st \<subseteq> finished st'"
      using fin2 fin' by auto
    moreover have "n \<in> finished st'"
      using fin' by simp
    ultimately show ?thesis by simp
  qed
qed

lemma dfs_total:
  assumes closed: "graph_closed E g"
  shows "n \<in> dom (map_of g) \<Longrightarrow> card (dom (map_of g) - dom (dfs_visited st)) < fuel \<Longrightarrow>
     (case dfs fuel E g n st of None \<Rightarrow> False | Some (Inl e) \<Rightarrow> e = ValueError
      | Some (Inr st') \<Rightarrow> dom (dfs_visited st) \<subseteq> dom (dfs_visited st'))"
proof (induction fuel arbitrary: n st)
  case 0
  then show ?case by simp
next
  case (Suc fuel)
  show ?case
  proof (cases "dfs_visited st n")
    case (Some c)
    then show ?thesis by simp
  next
    case None
    from Suc.prems(1) obtain s where s: "map_of g n = Some s" by auto
    let ?st1 = "st\<lparr>dfs_visited := (dfs_visited st)(n \<mapsto> 1)\<rparr>"
    let ?K = "dom (map_of g)"
    have fin: "finite ?K" by (rule finite_dom_map_of)
    have "?K - dom (dfs_visited ?st1) \<subset> ?K - dom (dfs_visited st)"
      using None Suc.prems(1) by auto
    then have "card (?K - dom (dfs_visited ?st1)) < card (?K - dom (dfs_visited st))"
      using fin by (intro psubset_card_mono) auto
    then have c1: "card (?K - dom (dfs_visited ?st1)) < fuel"
      using Suc.prems(2) by simp
    have step: "\<And>x t. x \<in> set (set_iter E s) \<Longrightarrow> dom (dfs_visited ?st1) \<subseteq> dom (dfs_visited t) \<Longrightarrow>
       (case dfs fuel E g x t of None \<Rightarrow> False | Some (Inl e) \<Rightarrow> e = ValueError
        | Some (Inr t') \<Rightarrow> dom (dfs_visited ?st1) \<subseteq> dom (dfs_visited t'))"
    proof -
      fix x and t :: dfs_state
      assume x: "x \<in> set (set_iter E s)"
        and t: "dom (dfs_visited ?st1) \<subseteq> dom (dfs_visited t)"
      have xk: "x \<in> ?K" using closed s x by (auto simp: graph_closed_def graph_edges_def)
      have "?K - dom (dfs_visited t) \<subseteq> ?K - dom (dfs_visited ?st1)" using t by auto
      then have "card (?K - dom (dfs_visited t)) \<le> card (?K - dom (dfs_visited ?st1))"
        using fin by (intro card_mono) auto
      then have "card (?K - dom (dfs_visited t)) < fuel" using c1 by simp
      from Suc.IH [OF xk this]
      show "case dfs fuel E g x t of None \<Rightarrow> False | Some (Inl e) \<Rightarrow> e = ValueError
        | Some (Inr t') \<Rightarrow> dom (dfs_visited ?st1) \<subseteq> dom (dfs_visited t')"
        using t by (auto split: option.splits sum.splits)
    qed
    have loop: "case for_each (dfs fuel E g) (set_iter E s) ?st1 of None \<Rightarrow> False
        | Some (Inl e) \<Rightarrow> e = ValueError
        | Some (Inr t') \<Rightarrow> dom (dfs_visited ?st1) \<subseteq> dom (dfs_visited t')"
      by (rule for_each_result [where I = "\<lambda>t. dom (dfs_visited ?st1) \<subseteq> dom (dfs_visited t)"
            and PN = False and PE = "\<lambda>e. e = ValueError", OF _ step]) simp_all
    show ?thesis
      using None s loop by (auto split: option.splits sum.splits)
  qed
qed

lemma dfs_no_cycle_error:
  assumes acyc: "acyclic (graph_edges E g)"
  shows "\<forall>x \<in> visiting st. (n, x) \<notin> (graph_edges E g)\<^sup>* \<Longrightarrow> dfs fuel E g n st \<noteq> Some (Inl ValueError)"
proof (induction fuel arbitrary: n st)
  case 0
  then show ?case by simp
next
  case (Suc fuel)
  show ?case
  proof (cases "dfs_visited st n")
    case (Some c)
    have "n \<notin> visiting st" using Suc.prems by auto
    then have "c \<noteq> 1" using Some by (auto simp: visiting_def)
    then show ?thesis using Some by simp
  next
    case None
    show ?thesis
    proof (cases "map_of g n")
      case nk: None
      then show ?thesis using None by simp
    next
      case (Some s)
      let ?st1 = "st\<lparr>dfs_visited := (dfs_visited st)(n \<mapsto> 1)\<rparr>"
      have v1: "visiting ?st1 = insert n (visiting st)" by (rule visiting_mark1 [OF None])
      have step: "\<And>x t. x \<in> set (set_iter E s) \<Longrightarrow> visiting t = visiting ?st1 \<Longrightarrow>
         (case dfs fuel E g x t of None \<Rightarrow> True | Some (Inl e) \<Rightarrow> e \<noteq> ValueError
          | Some (Inr t') \<Rightarrow> visiting t' = visiting ?st1)"
      proof -
        fix x t assume x: "x \<in> set (set_iter E s)" and t: "visiting t = visiting ?st1"
        have e: "(n, x) \<in> graph_edges E g" using Some x by (auto simp: graph_edges_def)
        have pre: "\<forall>y \<in> visiting t. (x, y) \<notin> (graph_edges E g)\<^sup>*"
        proof
          fix y assume "y \<in> visiting t"
          then have "y = n \<or> y \<in> visiting st" using t v1 by simp
          then show "(x, y) \<notin> (graph_edges E g)\<^sup>*"
          proof
            assume "y = n"
            show ?thesis
            proof
              assume "(x, y) \<in> (graph_edges E g)\<^sup>*"
              then have "(n, n) \<in> (graph_edges E g)\<^sup>+" using e \<open>y = n\<close> by (metis rtrancl_into_trancl2)
              then show False using acyc by (simp add: acyclic_def)
            qed
          next
            assume y: "y \<in> visiting st"
            show ?thesis
            proof
              assume "(x, y) \<in> (graph_edges E g)\<^sup>*"
              then have "(n, y) \<in> (graph_edges E g)\<^sup>*" using e by (metis converse_rtrancl_into_rtrancl)
              then show False using Suc.prems y by blast
            qed
          qed
        qed
        have ne: "dfs fuel E g x t \<noteq> Some (Inl ValueError)" by (rule Suc.IH [OF pre])
        show "case dfs fuel E g x t of None \<Rightarrow> True | Some (Inl e) \<Rightarrow> e \<noteq> ValueError
          | Some (Inr t') \<Rightarrow> visiting t' = visiting ?st1"
        proof (cases "dfs fuel E g x t")
          case None
          then show ?thesis by simp
        next
          case (Some r)
          show ?thesis
          proof (cases r)
            case (Inl e)
            then show ?thesis using Some ne by auto
          next
            case (Inr t')
            then show ?thesis using Some dfs_visiting [of fuel E g x t t'] t by simp
          qed
        qed
      qed
      have loop: "case for_each (dfs fuel E g) (set_iter E s) ?st1 of None \<Rightarrow> True
          | Some (Inl e) \<Rightarrow> e \<noteq> ValueError
          | Some (Inr t') \<Rightarrow> visiting t' = visiting ?st1"
        by (rule for_each_result [where I = "\<lambda>t. visiting t = visiting ?st1"
              and PN = True and PE = "\<lambda>e. e \<noteq> ValueError", OF _ step]) simp_all
      show ?thesis
        using None Some loop by (auto split: option.splits sum.splits)
    qed
  qed
qed

lemma appears_before_pos:
  assumes "distinct xs" "appears_before a b xs"
  shows "length (takeWhile (\<lambda>x. x \<noteq> a) xs) < length (takeWhile (\<lambda>x. x \<noteq> b) xs)"
  using assms
proof (induction xs)
  case Nil
  then show ?case by (simp add: appears_before_def)
next
  case (Cons x xs)
  show ?case
  proof (cases "x = a")
    case True
    then have "b \<in> set xs" using Cons.prems(2) by (simp add: appears_before_Cons)
    then have "b \<noteq> x" using Cons.prems(1) by auto
    then show ?thesis using True by simp
  next
    case False
    then have ab: "appears_before a b xs" using Cons.prems(2) by (simp add: appears_before_Cons)
    then have "b \<in> set (dropWhile (\<lambda>x. x \<noteq> a) xs)"
      unfolding appears_before_def by (cases "dropWhile (\<lambda>x. x \<noteq> a) xs") auto
    then have "b \<in> set xs" by (rule set_dropWhileD)
    then have "b \<noteq> x" using Cons.prems(1) by auto
    then show ?thesis using False Cons.IH ab Cons.prems(1) by simp
  qed
qed

lemma ordered_acyclic:
  assumes "distinct xs" "\<forall>(a, b) \<in> r. appears_before a b xs"
  shows "acyclic r"
proof -
  let ?pos = "\<lambda>a. length (takeWhile (\<lambda>x. x \<noteq> a) xs)"
  have "r \<subseteq> inv_image less_than ?pos"
    using assms(2) appears_before_pos [OF assms(1)] by (auto simp: inv_image_def)
  moreover have "acyclic (inv_image less_than ?pos)"
    by (simp add: wf_acyclic)
  ultimately show ?thesis by (rule acyclic_subset [rotated])
qed

section \<open>The order of the sheets\<close>

lemma sorted_infinite_last:
  fixes f :: "'a \<Rightarrow> enat"
  shows "sorted (map f xs) \<Longrightarrow> xs = filter (\<lambda>x. f x \<noteq> \<infinity>) xs @ filter (\<lambda>x. f x = \<infinity>) xs"
proof (induction xs)
  case Nil
  show ?case by simp
next
  case (Cons x xs)
  show ?case
  proof (cases "f x = \<infinity>")
    case True
    then have "\<forall>y\<in>set xs. f y = \<infinity>" using Cons.prems by auto
    then have "filter (\<lambda>x. f x \<noteq> \<infinity>) xs = []" "filter (\<lambda>x. f x = \<infinity>) xs = xs"
      by (simp_all add: filter_empty_conv)
    then show ?thesis using True by simp
  next
    case False
    have "sorted (map f xs)" using Cons.prems by simp
    then have "xs = filter (\<lambda>x. f x \<noteq> \<infinity>) xs @ filter (\<lambda>x. f x = \<infinity>) xs"
      by (rule Cons.IH)
    then have "x # xs = (x # filter (\<lambda>x. f x \<noteq> \<infinity>) xs) @ filter (\<lambda>x. f x = \<infinity>) xs"
      by simp
    moreover have "filter (\<lambda>x. f x \<noteq> \<infinity>) (x # xs) = x # filter (\<lambda>x. f x \<noteq> \<infinity>) xs"
      using False by (simp del: not_infinity_eq)
    moreover have "filter (\<lambda>x. f x = \<infinity>) (x # xs) = filter (\<lambda>x. f x = \<infinity>) xs"
      using False by (simp del: not_infinity_eq)
    ultimately show ?thesis by (simp only:)
  qed
qed

lemma sort_key_file_infinite: "sort_key_file f = \<infinity> \<longleftrightarrow> suffix_number f = None"
  by (simp add: sort_key_file_def split: option.splits)

lemma map_snd_export_sheets: "map snd (export_sheets listing) = sorted_dxf_files listing"
  by (simp add: export_sheets_def Let_def comp_def map_nth)

lemma map_fst_export_sheets:
  "map fst (export_sheets listing) =
     map (\<lambda>i. ''FL'' @ str_nat (i + 1)) [0..<length (sorted_dxf_files listing)]"
  by (simp add: export_sheets_def Let_def comp_def)

text \<open>
  C7. In the combined export the files that end with \<^verbatim>\<open>.dxf\<close> are ordered by the number
  between the last underscore and the extension, a file without such a number counting as
  infinity: the sorted list is ordered by that key and is a rearrangement of the listed
  files, files of equal key keep their listing order, the files without a number come last
  in their listing order, and the file at index \<open>i\<close> is assigned the sheet \<^verbatim>\<open>FL{i+1}\<close>. For
  the listing \<^verbatim>\<open>a_2.dxf, a_1.dxf, b.dxf\<close> the assignment is \<^verbatim>\<open>a_1.dxf\<close> to \<^verbatim>\<open>FL1\<close>,
  \<^verbatim>\<open>a_2.dxf\<close> to \<^verbatim>\<open>FL2\<close>, \<^verbatim>\<open>b.dxf\<close> to \<^verbatim>\<open>FL3\<close>.
\<close>

theorem export_sheet_order:
  "sorted (map sort_key_file (sorted_dxf_files listing))
   \<and> mset (sorted_dxf_files listing) = mset (filter (\<lambda>f. endswith (lower f) ''.dxf'') listing)
   \<and> (\<forall>k. filter (\<lambda>f. sort_key_file f = k) (sorted_dxf_files listing)
          = filter (\<lambda>f. sort_key_file f = k) (filter (\<lambda>f. endswith (lower f) ''.dxf'') listing))
   \<and> sorted_dxf_files listing
       = filter (\<lambda>f. suffix_number f \<noteq> None) (sorted_dxf_files listing)
         @ filter (\<lambda>f. suffix_number f = None) (filter (\<lambda>f. endswith (lower f) ''.dxf'') listing)
   \<and> map snd (export_sheets listing) = sorted_dxf_files listing
   \<and> map fst (export_sheets listing)
       = map (\<lambda>i. ''FL'' @ str_nat (i + 1)) [0..<length (sorted_dxf_files listing)]
   \<and> export_sheets [''a_2.dxf'', ''a_1.dxf'', ''b.dxf'']
       = [(''FL1'', ''a_1.dxf''), (''FL2'', ''a_2.dxf''), (''FL3'', ''b.dxf'')]"
proof -
  let ?dxf = "filter (\<lambda>f. endswith (lower f) ''.dxf'') listing"
  have s: "sorted (map sort_key_file (sorted_dxf_files listing))"
    unfolding sorted_dxf_files_def by (rule sorted_sort_key)
  have st: "\<And>k. filter (\<lambda>f. sort_key_file f = k) (sorted_dxf_files listing)
          = filter (\<lambda>f. sort_key_file f = k) ?dxf"
    unfolding sorted_dxf_files_def by (rule sort_key_stable)
  have "sorted_dxf_files listing
       = filter (\<lambda>f. sort_key_file f \<noteq> \<infinity>) (sorted_dxf_files listing)
         @ filter (\<lambda>f. sort_key_file f = \<infinity>) (sorted_dxf_files listing)"
    by (rule sorted_infinite_last [OF s])
  then have l: "sorted_dxf_files listing
       = filter (\<lambda>f. suffix_number f \<noteq> None) (sorted_dxf_files listing)
         @ filter (\<lambda>f. suffix_number f = None) ?dxf"
    unfolding st by (simp add: sort_key_file_infinite)
  have e: "export_sheets [''a_2.dxf'', ''a_1.dxf'', ''b.dxf'']
       = [(''FL1'', ''a_1.dxf''), (''FL2'', ''a_2.dxf''), (''FL3'', ''b.dxf'')]"
    by code_simp
  have m: "mset (sorted_dxf_files listing) = mset ?dxf"
    by (simp add: sorted_dxf_files_def)
  show ?thesis
    using s m st l e map_snd_export_sheets map_fst_export_sheets by blast
qed

section \<open>The dependency graph\<close>

lemma graph_init_fold:
  fixes g :: graph
  shows "fst ` set (fold (\<lambda>block g. AList.update block [] g) xs g) = set xs \<union> fst ` set g
   \<and> (\<forall>k. map_of (fold (\<lambda>block g. AList.update block [] g) xs g) k =
          (if k \<in> set xs then Some [] else map_of g k))"
proof (induction xs arbitrary: g)
  case Nil
  show ?case by simp
next
  case (Cons x xs)
  show ?case
    by (auto simp: Cons.IH [of "AList.update x [] g"] dom_update update_conv')
qed

lemma graph_init_keys: "fst ` set (graph_init removable) = set removable"
  using graph_init_fold [of removable "[]"] by (simp add: graph_init_def)

lemma graph_init_adj: "adj (graph_init removable) k = {}"
  using graph_init_fold [of removable "[]"] by (simp add: graph_init_def adj_def)

lemma adj_map_entry:
  "adj (AList.map_entry b (List.insert r) g) k =
     (if k = b \<and> b \<in> fst ` set g then insert r (adj g k) else adj g k)"
proof (cases "map_of g b")
  case None
  then have "b \<notin> fst ` set g" by (simp add: map_of_eq_None_iff)
  then show ?thesis using None by (simp add: adj_def map_of_map_entry)
next
  case (Some s)
  then have "b \<in> fst ` set g" by (metis map_of_eq_None_iff option.distinct(1))
  then show ?thesis using Some by (simp add: adj_def map_of_map_entry)
qed

lemma keys_map_entry: "fst ` set (AList.map_entry b f g) = fst ` set g"
  by (simp add: dom_map_entry)

lemma keys_add_reference [simp]: "fst ` set (add_reference block e g) = fst ` set g"
  by (simp add: add_reference_def Let_def keys_map_entry)

lemma adj_add_reference:
  "adj (add_reference block e g) k =
      (if k = block \<and> block \<in> fst ` set g \<and> ent_type e = ''INSERT'' \<and> ent_name e \<in> fst ` set g
       then insert (ent_name e) (adj g k) else adj g k)"
  by (simp add: add_reference_def Let_def adj_map_entry)

lemma keys_add_references [simp]: "fst ` set (add_references block block_def g) = fst ` set g"
  unfolding add_references_def by (induction block_def arbitrary: g) simp_all

lemma adj_add_references:
  "adj (add_references block block_def g) k =
          (if k = block \<and> block \<in> fst ` set g
           then adj g k \<union> {ent_name e | e. e \<in> set block_def \<and> ent_type e = ''INSERT''
                                          \<and> ent_name e \<in> fst ` set g}
           else adj g k)"
  unfolding add_references_def
proof (induction block_def arbitrary: g)
  case Nil
  show ?case by simp
next
  case (Cons e es)
  have "adj (fold (add_reference block) (e # es) g) k
      = adj (fold (add_reference block) es (add_reference block e g)) k" by simp
  also have "\<dots> = (if k = block \<and> block \<in> fst ` set g
           then adj (add_reference block e g) k \<union> {ent_name e | e. e \<in> set es \<and> ent_type e = ''INSERT''
                                          \<and> ent_name e \<in> fst ` set g}
           else adj (add_reference block e g) k)"
    using Cons.IH [of "add_reference block e g"] by simp
  also have "\<dots> = (if k = block \<and> block \<in> fst ` set g
           then adj g k \<union> {ent_name x | x. x \<in> set (e # es) \<and> ent_type x = ''INSERT''
                                          \<and> ent_name x \<in> fst ` set g}
           else adj g k)"
    unfolding adj_add_reference by auto
  finally show ?case .
qed

lemma build_graph_ok:
  "\<forall>b\<in>set bl. blocks_get bs b \<noteq> None \<Longrightarrow>
   \<exists>g'. build_graph bs bl g = Inr g' \<and> fst ` set g' = fst ` set g
     \<and> (\<forall>k. adj g' k = adj g k \<union>
            (if k \<in> set bl \<and> k \<in> fst ` set g
             then {ent_name e | e. e \<in> set (the (blocks_get bs k)) \<and> ent_type e = ''INSERT''
                                          \<and> ent_name e \<in> fst ` set g} else {}))"
proof (induction bl arbitrary: g)
  case Nil
  show ?case by simp
next
  case (Cons b bl)
  from Cons.prems obtain d where d: "blocks_get bs b = Some d" by auto
  let ?g1 = "add_references b d g"
  from Cons.prems have "\<forall>b\<in>set bl. blocks_get bs b \<noteq> None" by simp
  from Cons.IH [OF this, of ?g1] obtain g' where
    g': "build_graph bs bl ?g1 = Inr g'" "fst ` set g' = fst ` set ?g1"
      "\<And>k. adj g' k = adj ?g1 k \<union>
            (if k \<in> set bl \<and> k \<in> fst ` set ?g1
             then {ent_name e | e. e \<in> set (the (blocks_get bs k)) \<and> ent_type e = ''INSERT''
                                          \<and> ent_name e \<in> fst ` set ?g1} else {})"
    by blast
  have "build_graph bs (b # bl) g = Inr g'" using d g'(1) by simp
  moreover have "fst ` set g' = fst ` set g" using g'(2) by simp
  moreover have "\<And>k. adj g' k = adj g k \<union>
            (if k \<in> set (b # bl) \<and> k \<in> fst ` set g
             then {ent_name e | e. e \<in> set (the (blocks_get bs k)) \<and> ent_type e = ''INSERT''
                                          \<and> ent_name e \<in> fst ` set g} else {})"
    unfolding g'(3) adj_add_references using d by auto
  ultimately show ?case by blast
qed

lemma build_graph_error:
  "build_graph bs bl g = Inl e \<Longrightarrow> e = TypeError \<and> (\<exists>b\<in>set bl. blocks_get bs b = None)"
  by (induction bl arbitrary: g) (auto split: option.splits)

lemma graph_edges_adj: "\<forall>xs. set (set_iter E xs) = set xs \<Longrightarrow> graph_edges E g = {(a, b). b \<in> adj g a}"
  by (auto simp: graph_edges_def adj_def split: option.splits)

lemma set_reference_edges:
  "set (reference_edges bs removable) =
     {(a, b). a \<in> set removable \<and> (\<exists>d e. blocks_get bs a = Some d \<and> e \<in> set d \<and> ent_type e = ''INSERT''
         \<and> ent_name e \<in> set removable \<and> b = ent_name e)}"
proof -
  have "(a, b) \<in> set (reference_edges bs removable) \<longleftrightarrow>
     a \<in> set removable \<and> (\<exists>d e. blocks_get bs a = Some d \<and> e \<in> set d \<and> ent_type e = ''INSERT''
         \<and> ent_name e \<in> set removable \<and> b = ent_name e)" for a b
  proof
    assume "(a, b) \<in> set (reference_edges bs removable)"
    then obtain x where x: "x \<in> set removable"
      and m: "(a, b) \<in> set (case blocks_get bs x of None \<Rightarrow> []
            | Some block_def \<Rightarrow> map (\<lambda>entity. (x, ent_name entity))
                 (filter (\<lambda>entity. ent_type entity = ''INSERT'' \<and> ent_name entity \<in> set removable) block_def))"
      by (auto simp: reference_edges_def)
    then obtain d where d: "blocks_get bs x = Some d" by (cases "blocks_get bs x") auto
    with m x show "a \<in> set removable \<and> (\<exists>d e. blocks_get bs a = Some d \<and> e \<in> set d \<and> ent_type e = ''INSERT''
         \<and> ent_name e \<in> set removable \<and> b = ent_name e)" by auto
  next
    assume r: "a \<in> set removable \<and> (\<exists>d e. blocks_get bs a = Some d \<and> e \<in> set d \<and> ent_type e = ''INSERT''
         \<and> ent_name e \<in> set removable \<and> b = ent_name e)"
    then obtain d e where "blocks_get bs a = Some d" "e \<in> set d" "ent_type e = ''INSERT''"
      "ent_name e \<in> set removable" "b = ent_name e" by blast
    then have "(a, b) \<in> set (case blocks_get bs a of None \<Rightarrow> []
            | Some block_def \<Rightarrow> map (\<lambda>entity. (a, ent_name entity))
                 (filter (\<lambda>entity. ent_type entity = ''INSERT'' \<and> ent_name entity \<in> set removable) block_def))"
      by auto
    then show "(a, b) \<in> set (reference_edges bs removable)"
      using r unfolding reference_edges_def by auto
  qed
  then show ?thesis by auto
qed

lemma built_graph:
  assumes ex: "\<forall>b\<in>set removable. blocks_get bs b \<noteq> None"
    and it: "\<forall>xs. set (set_iter E xs) = set xs"
  shows "\<exists>g. build_graph bs removable (graph_init removable) = Inr g
           \<and> dom (map_of g) = set removable
           \<and> graph_edges E g = set (reference_edges bs removable)"
proof -
  from build_graph_ok [OF ex, of "graph_init removable"] obtain g where
    g: "build_graph bs removable (graph_init removable) = Inr g"
       "fst ` set g = fst ` set (graph_init removable)"
       "\<And>k. adj g k = adj (graph_init removable) k \<union>
            (if k \<in> set removable \<and> k \<in> fst ` set (graph_init removable)
             then {ent_name e | e. e \<in> set (the (blocks_get bs k)) \<and> ent_type e = ''INSERT''
                                          \<and> ent_name e \<in> fst ` set (graph_init removable)} else {})"
    by blast
  have keys: "dom (map_of g) = set removable"
    using g(2) by (simp add: dom_map_of_conv_image_fst graph_init_keys)
  have a: "\<And>k. adj g k = (if k \<in> set removable
             then {ent_name e | e. e \<in> set (the (blocks_get bs k)) \<and> ent_type e = ''INSERT''
                                          \<and> ent_name e \<in> set removable} else {})"
    unfolding g(3) by (simp add: graph_init_keys graph_init_adj)
  have "graph_edges E g = set (reference_edges bs removable)"
  proof -
    have dd: "\<And>k. k \<in> set removable \<Longrightarrow> \<exists>d. blocks_get bs k = Some d" using ex by auto
    show ?thesis
      unfolding graph_edges_adj [OF it] set_reference_edges a using dd by (fastforce split: if_splits)
  qed
  then show ?thesis using g(1) keys by blast
qed

lemma graph_closedI:
  "graph_edges E g = set (reference_edges bs removable) \<Longrightarrow> dom (map_of g) = set removable
     \<Longrightarrow> graph_closed E g"
  by (auto simp: graph_closed_def set_reference_edges)

lemma visit_all_total:
  assumes closed: "graph_closed E g" and fuel: "card (dom (map_of g)) < fuel"
  shows "case visit_all fuel E g of None \<Rightarrow> False | Some (Inl e) \<Rightarrow> e = ValueError
         | Some (Inr st') \<Rightarrow> True"
proof (rule for_each_result [where I = "\<lambda>t. True" and PN = False and PE = "\<lambda>e. e = ValueError"])
  show True ..
next
  fix x and t :: dfs_state
  assume x: "x \<in> set (map fst g)"
  then have xk: "x \<in> dom (map_of g)" by (simp add: dom_map_of_conv_image_fst)
  have "card (dom (map_of g) - dom (dfs_visited t)) \<le> card (dom (map_of g))"
    by (intro card_mono) (auto simp: finite_dom_map_of)
  then have "card (dom (map_of g) - dom (dfs_visited t)) < fuel" using fuel by simp
  from dfs_total [OF closed xk this]
  show "case if dfs_visited t x = None then dfs fuel E g x t else Some (Inr t) of
         None \<Rightarrow> False | Some (Inl e) \<Rightarrow> e = ValueError | Some (Inr t') \<Rightarrow> True"
    by (auto split: option.splits sum.splits)
qed

lemma visit_all_inv:
  assumes run: "visit_all fuel E g = Some (Inr st)"
  shows "dfs_inv E g st \<and> dom (map_of g) \<subseteq> finished st"
proof -
  let ?body = "\<lambda>node st. if dfs_visited st node = None then dfs fuel E g node st else Some (Inr st)"
  let ?init = "\<lparr>dfs_visited = Map.empty, dfs_order = []\<rparr>"
  have init: "dfs_inv E g ?init \<and> visiting ?init = {}"
    by (simp add: dfs_inv_def finished_def visiting_def)
  have step: "\<And>x t t'. x \<in> set (map fst g) \<Longrightarrow> dfs_inv E g t \<and> visiting t = {} \<Longrightarrow> ?body x t = Some (Inr t')
     \<Longrightarrow> (dfs_inv E g t' \<and> visiting t' = {}) \<and> finished t \<subseteq> finished t' \<and> x \<in> finished t'"
  proof -
    fix x t t'
    assume inv: "dfs_inv E g t \<and> visiting t = {}" and b: "?body x t = Some (Inr t')"
    show "(dfs_inv E g t' \<and> visiting t' = {}) \<and> finished t \<subseteq> finished t' \<and> x \<in> finished t'"
    proof (cases "dfs_visited t x")
      case None
      then have "dfs fuel E g x t = Some (Inr t')" using b by simp
      from dfs_inv_step [OF this] inv show ?thesis by simp
    next
      case (Some c)
      then have tt: "t' = t" using b by simp
      have "x \<notin> visiting t" using inv by simp
      then have "c \<noteq> 1" using Some by (auto simp: visiting_def)
      then have "x \<in> finished t" using Some by (simp add: finished_def)
      then show ?thesis using inv tt by simp
    qed
  qed
  have "(dfs_inv E g st \<and> visiting st = {}) \<and> finished ?init \<subseteq> finished st
      \<and> (\<forall>x\<in>set (map fst g). x \<in> finished st)"
    by (rule for_each_rule [where I = "\<lambda>t. dfs_inv E g t \<and> visiting t = {}"
          and R = "\<lambda>a b. finished a \<subseteq> finished b" and Q = "\<lambda>x t. x \<in> finished t",
          OF run init step]) auto
  then show ?thesis by (auto simp: dom_map_of_conv_image_fst)
qed

lemma visit_all_acyclic:
  assumes acyc: "acyclic (graph_edges E g)"
  shows "visit_all fuel E g \<noteq> Some (Inl ValueError)"
proof -
  have "case visit_all fuel E g of None \<Rightarrow> True | Some (Inl e) \<Rightarrow> e \<noteq> ValueError
         | Some (Inr st') \<Rightarrow> visiting st' = {}"
  proof (rule for_each_result [where I = "\<lambda>t. visiting t = {}" and PN = True and PE = "\<lambda>e. e \<noteq> ValueError"])
    show "visiting \<lparr>dfs_visited = Map.empty, dfs_order = []\<rparr> = {}" by (simp add: visiting_def)
  next
    fix x t assume t: "visiting t = {}"
    have ne: "dfs fuel E g x t \<noteq> Some (Inl ValueError)"
      by (rule dfs_no_cycle_error [OF acyc]) (simp add: t)
    show "case if dfs_visited t x = None then dfs fuel E g x t else Some (Inr t) of
         None \<Rightarrow> True | Some (Inl e) \<Rightarrow> e \<noteq> ValueError | Some (Inr t') \<Rightarrow> visiting t' = {}"
    proof (cases "dfs_visited t x = None")
      case False
      then show ?thesis using t by auto
    next
      case True
      show ?thesis
      proof (cases "dfs fuel E g x t")
        case None
        then show ?thesis using True by simp
      next
        case (Some r)
        show ?thesis
        proof (cases r)
          case (Inl e)
          then show ?thesis using Some ne True by auto
        next
          case (Inr t')
          then show ?thesis using Some True dfs_visiting [of fuel E g x t t'] t by simp
        qed
      qed
    qed
  qed
  then show ?thesis by (auto split: option.splits sum.splits)
qed

lemma visit_all_order:
  assumes run: "visit_all fuel E g = Some (Inr st)"
  shows "distinct (rev (dfs_order st)) \<and> set (rev (dfs_order st)) = dom (map_of g)
     \<and> (\<forall>(a, b) \<in> graph_edges E g. appears_before a b (rev (dfs_order st)))"
proof -
  from visit_all_inv [OF run] have inv: "dfs_inv E g st" and all: "dom (map_of g) \<subseteq> finished st"
    by simp_all
  have "distinct (rev (dfs_order st))" using inv by (simp add: dfs_inv_def)
  moreover have "set (rev (dfs_order st)) = dom (map_of g)"
    using inv all by (auto simp: dfs_inv_def)
  moreover have "\<forall>(a, b) \<in> graph_edges E g. appears_before a b (rev (dfs_order st))"
  proof clarify
    fix a b assume e: "(a, b) \<in> graph_edges E g"
    then have "a \<in> dom (map_of g)" by (auto simp: graph_edges_def)
    then have "a \<in> finished st" using all by auto
    then show "appears_before a b (rev (dfs_order st))" using inv e by (simp add: dfs_inv_def)
  qed
  ultimately show ?thesis by simp
qed

section \<open>The deletion order\<close>

lemma get_deletion_order_result:
  assumes ex: "\<forall>b\<in>set removable. blocks_get bs b \<noteq> None"
    and it: "\<forall>xs. set (set_iter E xs) = set xs"
    and fuel: "length removable < fuel"
  shows "get_deletion_order fuel E bs removable = Some (Inl ValueError)
           \<and> \<not> acyclic (set (reference_edges bs removable))
       \<or> (\<exists>order. get_deletion_order fuel E bs removable = Some (Inr order)
            \<and> acyclic (set (reference_edges bs removable))
            \<and> distinct order \<and> set order = set removable
            \<and> (\<forall>(a, b) \<in> set (reference_edges bs removable). appears_before a b order))"
proof -
  from built_graph [OF ex it] obtain g where
    g: "build_graph bs removable (graph_init removable) = Inr g"
    and keys: "dom (map_of g) = set removable"
    and edges: "graph_edges E g = set (reference_edges bs removable)"
    by blast
  have closed: "graph_closed E g" by (rule graph_closedI [OF edges keys])
  have "card (dom (map_of g)) \<le> length removable"
    unfolding keys by (rule card_length)
  then have c: "card (dom (map_of g)) < fuel" using fuel by simp
  have gd: "get_deletion_order fuel E bs removable =
      (case visit_all fuel E g of None \<Rightarrow> None | Some (Inl e) \<Rightarrow> Some (Inl e)
       | Some (Inr st) \<Rightarrow> Some (Inr (rev (dfs_order st))))"
    by (simp add: get_deletion_order_def g)
  note tot = visit_all_total [OF closed c]
  show ?thesis
  proof (cases "visit_all fuel E g")
    case None
    then show ?thesis using tot by simp
  next
    case (Some r)
    show ?thesis
    proof (cases r)
      case (Inl e)
      then have e: "e = ValueError" using tot Some by simp
      have "\<not> acyclic (graph_edges E g)"
        using visit_all_acyclic [of E g fuel] Some Inl e by auto
      then show ?thesis using gd Some Inl e edges by simp
    next
      case (Inr st)
      from visit_all_order [OF Some [unfolded Inr]]
      have o: "distinct (rev (dfs_order st))" "set (rev (dfs_order st)) = set removable"
        "\<forall>(a, b) \<in> set (reference_edges bs removable). appears_before a b (rev (dfs_order st))"
        unfolding keys edges by simp_all
      have "acyclic (set (reference_edges bs removable))"
        by (rule ordered_acyclic [OF o(1) o(3)])
      then show ?thesis using gd Some Inr o by simp
    qed
  qed
qed

section \<open>The purge\<close>

lemma mset_sorted_len_reverse: "mset (sorted_len_reverse xs) = mset xs"
  by (simp add: sorted_len_reverse_def)

lemma sorted_len_reverse_descending:
  "sorted_wrt (\<lambda>a b. length b \<le> length a) (sorted_len_reverse xs)"
proof -
  have "sorted (map length (sort_key length (rev xs)))" by (rule sorted_sort_key)
  then have "sorted_wrt (\<lambda>a b. length a \<le> length b) (sort_key length (rev xs))"
    by (simp add: sorted_map)
  then show ?thesis
    by (simp add: sorted_len_reverse_def sorted_wrt_rev)
qed

lemma sorted_len_reverse_stable:
  "filter (\<lambda>b. length b = k) (sorted_len_reverse xs) = filter (\<lambda>b. length b = k) xs"
proof -
  have "filter (\<lambda>b. length b = k) (sort_key length (rev xs)) = filter (\<lambda>b. length b = k) (rev xs)"
    by (rule sort_key_stable)
  then show ?thesis
    by (simp add: sorted_len_reverse_def rev_filter [symmetric])
qed

lemma lower_char_idem: "lower_char (lower_char c) = lower_char c"
proof (cases "65 \<le> (of_char c :: nat) \<and> (of_char c :: nat) \<le> 90")
  case True
  then have "(of_char c :: nat) + 32 < 256" by simp
  then have "(of_char (char_of ((of_char c :: nat) + 32)) :: nat) = of_char c + 32"
    by (simp add: of_char_of [where ?'a = nat] del: of_char_of)
  then show ?thesis using True by (simp add: lower_char_def Let_def)
next
  case False
  then show ?thesis by (auto simp: lower_char_def Let_def)
qed

lemma table_key_idem: "table_key (table_key n) = table_key n"
  by (simp add: table_key_def lower_def lower_char_idem)

lemma removable_blocks_exist:
  "\<forall>b\<in>set (get_removable_blocks doc). blocks_get (blocks doc) b \<noteq> None"
proof
  fix b assume "b \<in> set (get_removable_blocks doc)"
  then obtain x where x: "x \<in> set (blocks doc)" "b = table_key (fst x)"
    by (auto simp: get_removable_blocks_def block_names_def)
  have "table_key b \<in> fst ` set (map (\<lambda>b. (table_key (fst b), snd b)) (blocks doc))"
    using x by (force simp: table_key_idem)
  then show "blocks_get (blocks doc) b \<noteq> None"
    unfolding blocks_get_def by (simp add: map_of_eq_None_iff)
qed

lemma purge_fallback_on_cycle:
  assumes "\<forall>xs. set (set_iter E xs) = set xs"
    and "\<not> acyclic (set (reference_edges (blocks doc) (get_removable_blocks doc)))"
    and "length (get_removable_blocks doc) < fuel"
  shows "get_deletion_order fuel E (blocks doc) (get_removable_blocks doc) = Some (Inl ValueError)
    \<and> purge_deletion_order fuel E doc = Some (Inr (sorted_len_reverse (get_removable_blocks doc)))"
proof -
  have r: "get_deletion_order fuel E (blocks doc) (get_removable_blocks doc) = Some (Inl ValueError)"
    using get_deletion_order_result [OF removable_blocks_exist assms(1,3)] assms(2) by blast
  then show ?thesis
    by (simp add: purge_deletion_order_def)
qed

lemma purge_order_without_cycle:
  assumes "\<forall>xs. set (set_iter E xs) = set xs"
    and "acyclic (set (reference_edges (blocks doc) (get_removable_blocks doc)))"
    and "length (get_removable_blocks doc) < fuel"
  shows "\<exists>order. get_deletion_order fuel E (blocks doc) (get_removable_blocks doc) = Some (Inr order)
            \<and> purge_deletion_order fuel E doc = Some (Inr order)
            \<and> distinct order \<and> set order = set (get_removable_blocks doc)
            \<and> (\<forall>(a, b) \<in> set (reference_edges (blocks doc) (get_removable_blocks doc)).
                  appears_before a b order)"
proof -
  from get_deletion_order_result [OF removable_blocks_exist assms(1,3)] assms(2)
  obtain order where o: "get_deletion_order fuel E (blocks doc) (get_removable_blocks doc) = Some (Inr order)"
    "distinct order" "set order = set (get_removable_blocks doc)"
    "\<forall>(a, b) \<in> set (reference_edges (blocks doc) (get_removable_blocks doc)). appears_before a b order"
    by blast
  then have "purge_deletion_order fuel E doc = Some (Inr order)"
    by (simp add: purge_deletion_order_def)
  then show ?thesis using o by blast
qed

text \<open>
  C1 fails on the code. The blocks \<open>A\<close>, \<open>B\<close>, \<open>C\<close> of the document form the chain
  \<open>A \<rightarrow> B \<rightarrow> C\<close>: \<open>A\<close> holds an INSERT of \<open>B\<close> and \<open>B\<close> an INSERT of \<open>C\<close>.
  \<open>get_removable_blocks\<close> takes the names from the block table's keys, which are
  lower-cased, and \<open>get_deletion_order\<close> tests \<^verbatim>\<open>referenced in graph\<close> with the name as
  the INSERT writes it: \<open>B\<close> is no key of a graph over \<open>a\<close>, \<open>b\<close>, \<open>c\<close>, no reference
  enters the graph, and the order returned is \<open>[c, b, a]\<close>, with each block after the
  block it references. Called with the names as the INSERTs write them, the function
  returns \<open>[A, B, C]\<close>.
\<close>

theorem deletion_order_misses_references:
  "get_removable_blocks chain_doc = [''a'', ''b'', ''c'']
   \<and> document_references (blocks chain_doc) [''a'', ''b'', ''c''] = [(''a'', ''b''), (''b'', ''c'')]
   \<and> reference_edges (blocks chain_doc) [''a'', ''b'', ''c''] = []
   \<and> get_deletion_order 4 plain_env (blocks chain_doc) [''a'', ''b'', ''c'']
       = Some (Inr [''c'', ''b'', ''a''])
   \<and> \<not> appears_before ''a'' ''b'' [''c'', ''b'', ''a'']
   \<and> \<not> appears_before ''b'' ''c'' [''c'', ''b'', ''a'']
   \<and> get_deletion_order 4 plain_env (blocks chain_doc) [''A'', ''B'', ''C'']
       = Some (Inr [''A'', ''B'', ''C''])"
proof -
  have 1: "get_removable_blocks chain_doc = [''a'', ''b'', ''c'']" by code_simp
  have 2: "document_references (blocks chain_doc) [''a'', ''b'', ''c''] = [(''a'', ''b''), (''b'', ''c'')]"
    by code_simp
  have 3: "reference_edges (blocks chain_doc) [''a'', ''b'', ''c''] = []" by code_simp
  have 4: "get_deletion_order 4 plain_env (blocks chain_doc) [''a'', ''b'', ''c'']
       = Some (Inr [''c'', ''b'', ''a''])" by code_simp
  have 5: "get_deletion_order 4 plain_env (blocks chain_doc) [''A'', ''B'', ''C'']
       = Some (Inr [''A'', ''B'', ''C''])" by code_simp
  show ?thesis using 1 2 3 4 5 by (simp add: appears_before_def)
qed

text \<open>
  C3 fails on the code, by the defect of C1. The blocks \<open>AA\<close> and \<open>B\<close> hold an INSERT
  of each other. The removable names are the keys \<open>aa\<close> and \<open>b\<close>, the INSERTs write
  \<open>B\<close> and \<open>AA\<close>, so the graph has no edge: \<open>get_deletion_order\<close> raises nothing and
  returns \<open>[b, aa]\<close>, and \<open>purge_blocks\<close> works through that order, not through the
  fallback order \<open>[aa, b]\<close>. Called with the names as written, the function ends in the
  \<open>ValueError\<close> of the cycle check.
\<close>

theorem cycle_not_detected:
  "get_removable_blocks cyclic_doc = [''aa'', ''b'']
   \<and> document_references (blocks cyclic_doc) [''aa'', ''b''] = [(''aa'', ''b''), (''b'', ''aa'')]
   \<and> reference_edges (blocks cyclic_doc) [''aa'', ''b''] = []
   \<and> get_deletion_order 3 plain_env (blocks cyclic_doc) [''aa'', ''b''] = Some (Inr [''b'', ''aa''])
   \<and> purge_deletion_order 3 plain_env cyclic_doc = Some (Inr [''b'', ''aa''])
   \<and> sorted_len_reverse [''aa'', ''b''] = [''aa'', ''b'']
   \<and> get_deletion_order 3 plain_env (blocks cyclic_doc) [''AA'', ''B''] = Some (Inl ValueError)"
proof -
  have 1: "get_removable_blocks cyclic_doc = [''aa'', ''b'']" by code_simp
  have 2: "document_references (blocks cyclic_doc) [''aa'', ''b''] = [(''aa'', ''b''), (''b'', ''aa'')]"
    by code_simp
  have 3: "reference_edges (blocks cyclic_doc) [''aa'', ''b''] = []" by code_simp
  have 4: "get_deletion_order 3 plain_env (blocks cyclic_doc) [''aa'', ''b''] = Some (Inr [''b'', ''aa''])"
    by code_simp
  have 5: "purge_deletion_order 3 plain_env cyclic_doc = Some (Inr [''b'', ''aa''])"
    by code_simp
  have 6: "sorted_len_reverse [''aa'', ''b''] = [''aa'', ''b'']" by code_simp
  have 7: "get_deletion_order 3 plain_env (blocks cyclic_doc) [''AA'', ''B''] = Some (Inl ValueError)"
    by code_simp
  show ?thesis using 1 2 3 4 5 6 7 by simp
qed

section \<open>The line-weight of a layer\<close>

lemma py_int_nonneg: "0 \<le> x \<Longrightarrow> py_int x = \<lfloor>x\<rfloor>"
  by (simp add: py_int_def)

lemma sorted_valid_lineweights: "sorted valid_lineweights"
  by (simp add: valid_lineweights_def)

lemma hd_filter_least:
  fixes xs :: "int list"
  assumes "sorted xs" "u \<in> set xs" "v < u"
  shows "hd (filter (\<lambda>u. v < u) xs) \<in> set xs \<and> v < hd (filter (\<lambda>u. v < u) xs)
         \<and> hd (filter (\<lambda>u. v < u) xs) \<le> u"
  using assms
proof (induction xs)
  case Nil
  then show ?case by simp
next
  case (Cons x xs)
  show ?case
  proof (cases "v < x")
    case True
    then show ?thesis using Cons.prems by auto
  next
    case False
    then have "u \<in> set xs" using Cons.prems by auto
    moreover have "sorted xs" using Cons.prems by simp
    ultimately show ?thesis using Cons.IH Cons.prems(3) False by simp
  qed
qed

lemma fix_lineweight_valid: "v \<in> set valid_lineweights \<Longrightarrow> fix_lineweight v = v"
  by (simp add: fix_lineweight_def)

lemma fix_lineweight_above: "211 < v \<Longrightarrow> fix_lineweight v = 211"
  by (auto simp: fix_lineweight_def valid_lineweights_def)

lemma fix_lineweight_next:
  assumes "0 \<le> v" "v \<le> 211"
  shows "fix_lineweight v \<in> set valid_lineweights \<and> v \<le> fix_lineweight v
         \<and> (\<forall>u\<in>set valid_lineweights. v \<le> u \<longrightarrow> fix_lineweight v \<le> u)"
proof (cases "v \<in> set valid_lineweights")
  case True
  then show ?thesis by (simp add: fix_lineweight_valid)
next
  case False
  have top: "211 \<in> set valid_lineweights" by (simp add: valid_lineweights_def)
  then have "v \<noteq> 211" using False by auto
  then have lt: "v < 211" using assms(2) by simp
  have f: "fix_lineweight v = hd (filter (\<lambda>u. v < u) valid_lineweights)"
    using False assms by (simp add: fix_lineweight_def)
  have "\<forall>u\<in>set valid_lineweights. v \<le> u \<longrightarrow> fix_lineweight v \<le> u"
  proof (intro ballI impI)
    fix u assume u: "u \<in> set valid_lineweights" "v \<le> u"
    then have "v < u" using False by (cases "v = u") auto
    then show "fix_lineweight v \<le> u"
      unfolding f using hd_filter_least [OF sorted_valid_lineweights u(1)] by simp
  qed
  moreover have "fix_lineweight v \<in> set valid_lineweights \<and> v \<le> fix_lineweight v"
    unfolding f using hd_filter_least [OF sorted_valid_lineweights top lt] by simp
  ultimately show ?thesis by simp
qed

text \<open>
  C5 (as amended). For every layer name and every non-negative weight,
  \<open>change_lineweight\<close> stores on each layer of that name the value that the library's
  validating setter makes of the integer part of the product of the weight and ten (the
  product as the runtime computes it, truncated, not rounded): the integer part itself
  when it is a valid line-weight, else the next larger valid line-weight, and \<open>211\<close>
  when it is above \<open>211\<close>. Every other layer and the rest of the document stay as they
  are; when no layer has the name the document is unchanged; when the layer names are
  distinct at most one layer has the name.
\<close>

theorem change_lineweight_stores:
  assumes "0 \<le> weight" and "\<forall>x. 0 \<le> x \<longrightarrow> 0 \<le> float_mul E x 10"
  shows "change_lineweight E doc dest_layer weight =
           doc\<lparr>layers := map (\<lambda>l. if layer_name l = dest_layer
                                    then l\<lparr>layer_lineweight := fix_lineweight \<lfloor>float_mul E weight 10\<rfloor>\<rparr>
                                    else l)
                              (layers doc)\<rparr>
       \<and> (dest_layer \<notin> set (map layer_name (layers doc))
             \<longrightarrow> change_lineweight E doc dest_layer weight = doc)
       \<and> (distinct (map layer_name (layers doc))
             \<longrightarrow> length (filter (\<lambda>l. layer_name l = dest_layer) (layers doc)) \<le> 1)
       \<and> fix_lineweight \<lfloor>float_mul E weight 10\<rfloor> \<in> set valid_lineweights
       \<and> (\<lfloor>float_mul E weight 10\<rfloor> \<in> set valid_lineweights
             \<longrightarrow> fix_lineweight \<lfloor>float_mul E weight 10\<rfloor> = \<lfloor>float_mul E weight 10\<rfloor>)
       \<and> (\<lfloor>float_mul E weight 10\<rfloor> \<le> 211
             \<longrightarrow> \<lfloor>float_mul E weight 10\<rfloor> \<le> fix_lineweight \<lfloor>float_mul E weight 10\<rfloor>
               \<and> (\<forall>u\<in>set valid_lineweights. \<lfloor>float_mul E weight 10\<rfloor> \<le> u
                      \<longrightarrow> fix_lineweight \<lfloor>float_mul E weight 10\<rfloor> \<le> u))
       \<and> (211 < \<lfloor>float_mul E weight 10\<rfloor>
             \<longrightarrow> fix_lineweight \<lfloor>float_mul E weight 10\<rfloor> = 211)"
proof -
  have p: "0 \<le> float_mul E weight 10" using assms by simp
  then have v: "0 \<le> \<lfloor>float_mul E weight 10\<rfloor>" by simp
  have a: "change_lineweight E doc dest_layer weight =
           doc\<lparr>layers := map (\<lambda>l. if layer_name l = dest_layer
                                    then l\<lparr>layer_lineweight := fix_lineweight \<lfloor>float_mul E weight 10\<rfloor>\<rparr>
                                    else l)
                              (layers doc)\<rparr>"
    using p by (simp add: change_lineweight_def py_int_nonneg)
  have b: "change_lineweight E doc dest_layer weight = doc"
    if n: "dest_layer \<notin> set (map layer_name (layers doc))"
  proof -
    have "map (\<lambda>l. if layer_name l = dest_layer
                 then l\<lparr>layer_lineweight := fix_lineweight (py_int (float_mul E weight 10))\<rparr> else l)
            (layers doc) = layers doc"
      using n by (intro map_idI) auto
    then show ?thesis by (simp add: change_lineweight_def)
  qed
  have c: "length (filter (\<lambda>l. layer_name l = dest_layer) ls) \<le> 1"
    if "distinct (map layer_name ls)" for ls :: "layer list"
    using that
  proof (induction ls)
    case Nil
    show ?case by simp
  next
    case (Cons a ls)
    show ?case
    proof (cases "layer_name a = dest_layer")
      case True
      then have "dest_layer \<notin> layer_name ` set ls" using Cons.prems by auto
      then have "filter (\<lambda>l. layer_name l = dest_layer) ls = []"
        by (auto simp: filter_empty_conv)
      then show ?thesis using True by simp
    next
      case False
      then show ?thesis using Cons by simp
    qed
  qed
  have d: "fix_lineweight \<lfloor>float_mul E weight 10\<rfloor> \<in> set valid_lineweights"
  proof (cases "\<lfloor>float_mul E weight 10\<rfloor> \<le> 211")
    case True
    then show ?thesis using fix_lineweight_next [OF v] by simp
  next
    case False
    then show ?thesis by (simp add: fix_lineweight_above valid_lineweights_def)
  qed
  show ?thesis
    using a b c d fix_lineweight_valid fix_lineweight_next [OF v] fix_lineweight_above
    by (intro conjI impI) blast+
qed

theorem change_lineweight_stores_witness:
  "(0::rat) \<le> 9 / 50
   \<and> \<lfloor>float_mul plain_env (9 / 50) 10\<rfloor> = 1
   \<and> fix_lineweight 1 = 5
   \<and> map layer_lineweight (layers (change_lineweight plain_env reserved_example ''WALLS'' (9 / 50)))
       = [- 3, - 3, 5]
   \<and> ''ROOF'' \<notin> set (map layer_name (layers reserved_example))
   \<and> change_lineweight plain_env reserved_example ''ROOF'' (9 / 50) = reserved_example
   \<and> distinct (map layer_name (layers reserved_example))
   \<and> length (filter (\<lambda>l. layer_name l = ''WALLS'') (layers reserved_example)) \<le> 1"
proof -
  have h1: "(0::rat) \<le> 9 / 50" by simp
  have h2: "\<forall>x. 0 \<le> x \<longrightarrow> 0 \<le> float_mul plain_env x 10" by (simp add: plain_env_def)
  have f: "\<lfloor>float_mul plain_env (9 / 50) 10\<rfloor> = 1" by (simp add: plain_env_def floor_eq_iff)
  have g: "fix_lineweight 1 = 5" by (simp add: fix_lineweight_def valid_lineweights_def)
  show ?thesis
    using change_lineweight_stores [OF h1 h2, of reserved_example "''WALLS''"]
      change_lineweight_stores [OF h1 h2, of reserved_example "''ROOF''"]
    by (simp add: reserved_example_def f g)
qed

text \<open>
  C5 as stated fails: for the weight \<open>9/50\<close> (0.18) the stored value is \<open>5\<close>, and
  \<open>round (9/50 * 10)\<close> is \<open>2\<close>.
\<close>

theorem change_lineweight_not_round:
  "map layer_lineweight (filter (\<lambda>l. layer_name l = ''WALLS'')
       (layers (change_lineweight plain_env reserved_example ''WALLS'' (9 / 50)))) = [5]
   \<and> round ((9 / 50 :: rat) * 10) = 2"
proof -
  have f: "py_int (float_mul plain_env (9 / 50) 10) = 1"
    by (simp add: plain_env_def py_int_def floor_eq_iff)
  have g: "fix_lineweight 1 = 5" by (simp add: fix_lineweight_def valid_lineweights_def)
  show ?thesis
    by (simp add: change_lineweight_def reserved_example_def f g round_def floor_eq_iff)
qed

section \<open>Clouds and logos on concrete inputs\<close>

text \<open>
  C2 fails on the code. The space holds a line on the eligible layer \<open>REV_A\<close> and then a
  closed polyline on the eligible layer \<open>REV_B\<close>. \<open>create_revcloud\<close> appends the layer
  of every entity on an eligible layer to \<open>all_layers\<close>, the line's too, and pairs the
  recorded boundaries with the first entries of that list: the one cloud is put on
  \<open>REV_A\<close>, the layer of the line, while the boundary it replaces was on \<open>REV_B\<close>.
\<close>

theorem revcloud_layer_misassigned:
  "create_revcloud plain_env cloud_space [''REV_A'', ''REV_B''] 6 =
     Inr [plain_entity ''LINE'' ''REV_A'',
          \<lparr>ent_type = ''LWPOLYLINE'', ent_layer = ''REV_A'', ent_color = 256,
           ent_lineweight = - 1, ent_linetype = ''BYLAYER'', ent_name = [], ent_closed = True,
           ent_vertices = [(0, 0), (10, 0), (10, 10)]\<rparr>]
   \<and> revcloud_add_entity plain_env [(0, 0), (10, 0), (10, 10)] 6 =
       Inr \<lparr>ent_type = ''LWPOLYLINE'', ent_layer = ''0'', ent_color = 256,
            ent_lineweight = - 1, ent_linetype = ''BYLAYER'', ent_name = [], ent_closed = True,
            ent_vertices = [(0, 0), (10, 0), (10, 10)]\<rparr>
   \<and> map ent_layer (filter (\<lambda>e. ent_type e = ''LWPOLYLINE'' \<and> ent_closed e) cloud_space) = [''REV_B'']"
  by (simp add: create_revcloud_def revcloud_scan_def cloud_space_def plain_entity_def plain_env_def)

text \<open>
  C6 fails on the code. The logo source defines the line-style \<open>DASHED\<close>, and the
  drawing has no line-style of that name. \<open>change_logos\<close> calls the library's \<^verbatim>\<open>add\<close>
  with the name alone; the call raises \<^verbatim>\<open>TypeError\<close>, no line-style is created, and the
  pass over the drawing ends with that error.
\<close>

theorem logo_linetype_raises:
  "map lt_name (linetypes dashed_logo) = [''ByBlock'', ''ByLayer'', ''Continuous'', ''DASHED'']
   \<and> map lt_name (linetypes drawing) = [''ByBlock'', ''ByLayer'', ''Continuous'']
   \<and> change_logos 1 plain_env dashed_logo drawing = Some (Inl TypeError)
   \<and> adjust_document 1 plain_env dashed_logo [] [] 6 drawing = Some (Inl TypeError)"
proof -
  have 1: "change_logos 1 plain_env dashed_logo drawing = Some (Inl TypeError)" by code_simp
  have 2: "adjust_document 1 plain_env dashed_logo [] [] 6 drawing = Some (Inl TypeError)" by code_simp
  show ?thesis using 1 2
    by (simp add: dashed_logo_def logo_source_def drawing_def standard_linetypes_def)
qed

lemma adjust_drawing:
  "adjust_document 1 plain_env logo_source [] [] 6 drawing = Some (Inr adjusted_drawing)"
  by code_simp


section \<open>The logo merge in the pipeline\<close>

lemma and_then_Inr:
  "and_then m f = Some (Inr y) \<longleftrightarrow> (\<exists>x. m = Some (Inr x) \<and> f x = Some (Inr y))"
  by (auto simp: and_then_def split: option.splits sum.splits)

lemma modelspace_delete_in_order [simp]:
  "modelspace (delete_in_order E deletion_order doc) = modelspace doc"
  unfolding delete_in_order_def
  by (induction deletion_order arbitrary: doc) (auto simp: delete_block_def)

lemma purge_blocks_modelspace:
  "purge_blocks fuel E doc = Some (Inr doc') \<Longrightarrow> modelspace doc' = modelspace doc"
  by (auto simp: purge_blocks_def and_then_Inr)

lemma set_copy_entities:
  "set (copy_entities E msp_source msp_target) =
     set msp_target \<union> {e \<in> set msp_source. entity_copyable E e}"
  unfolding copy_entities_def
  by (induction msp_source arbitrary: msp_target) auto

lemma change_logos_copies:
  assumes "change_logos fuel E doc_source doc_target = Some (Inr d)"
    and "explode_drawing fuel E (blocks doc_source) (modelspace doc_source) = Some (Inr msp_source)"
    and "e \<in> set msp_source" and "entity_copyable E e"
  shows "e \<in> set (modelspace d)"
proof -
  from assms(1,2) obtain src t2 where
    p: "purge_blocks fuel E (doc_source\<lparr>modelspace := msp_source\<rparr>) = Some (Inr src)"
    and d: "d = (copy_styles (styles src) t2)\<lparr>modelspace :=
              copy_entities E (modelspace src) (modelspace (copy_styles (styles src) t2))\<rparr>"
    by (auto simp: change_logos_def and_then_Inr Let_def)
  have m: "modelspace src = msp_source" using purge_blocks_modelspace [OF p] by simp
  show ?thesis using assms(3,4) unfolding d m by (simp add: set_copy_entities)
qed

lemma revcloud_scan_keeps:
  assumes "x \<in> set (fst acc)" and "\<not> is_boundary revcloud_layers x"
  shows "x \<in> set (fst (fold (revcloud_scan revcloud_layers) xs acc))"
  using assms(1)
proof (induction xs arbitrary: acc)
  case Nil
  then show ?case by simp
next
  case (Cons y ys)
  obtain m p l where acc: "acc = (m, p, l)" by (cases acc) auto
  have "x \<in> set (fst (revcloud_scan revcloud_layers y acc))"
  proof (cases "is_boundary revcloud_layers y")
    case True
    then have "x \<noteq> y" using assms(2) by auto
    then show ?thesis using Cons.prems acc
      by (simp add: revcloud_scan_def Let_def)
  next
    case False
    then show ?thesis using Cons.prems acc
      by (auto simp: revcloud_scan_def Let_def is_boundary_def)
  qed
  then show ?case using Cons.IH by simp
qed

lemma add_clouds_keeps:
  "for_each_err (\<lambda>(polyline, l) m. case f polyline of Inl e \<Rightarrow> Inl e
                                  | Inr revcloud \<Rightarrow> Inr (m @ [g revcloud l])) zs m = Inr m'
     \<Longrightarrow> x \<in> set m \<Longrightarrow> x \<in> set m'"
proof (induction zs arbitrary: m)
  case Nil
  then show ?case by simp
next
  case (Cons z zs)
  obtain p l where z: "z = (p, l)" by (cases z) auto
  from Cons.prems(1) obtain c where c: "f p = Inr c"
    and rest: "for_each_err (\<lambda>(polyline, l) m. case f polyline of Inl e \<Rightarrow> Inl e
                                  | Inr revcloud \<Rightarrow> Inr (m @ [g revcloud l])) zs (m @ [g c l]) = Inr m'"
    unfolding z by (auto split: sum.splits)
  show ?case by (rule Cons.IH [OF rest]) (use Cons.prems(2) in simp)
qed

lemma create_revcloud_keeps:
  assumes "create_revcloud E msp revcloud_layers arc_radius = Inr msp'"
    and "x \<in> set msp" and "\<not> is_boundary revcloud_layers x"
  shows "x \<in> set msp'"
proof -
  obtain m p l where f: "fold (revcloud_scan revcloud_layers) msp (msp, [], []) = (m, p, l)"
    by (cases "fold (revcloud_scan revcloud_layers) msp (msp, [], [])") auto
  have xm: "x \<in> set m"
    using revcloud_scan_keeps [of x "(msp, [], [])" revcloud_layers msp] assms(2,3) f by simp
  have "for_each_err (\<lambda>(polyline, l) m. case revcloud_add_entity E polyline arc_radius of
            Inl e \<Rightarrow> Inl e | Inr revcloud \<Rightarrow> Inr (m @ [revcloud\<lparr>ent_layer := l\<rparr>])) (zip p l) m = Inr msp'"
    using assms(1) unfolding create_revcloud_def f by simp
  then show ?thesis
    by (rule add_clouds_keeps [where f = "\<lambda>polyline. revcloud_add_entity E polyline arc_radius"
          and g = "\<lambda>revcloud l. revcloud\<lparr>ent_layer := l\<rparr>"]) (rule xm)
qed

lemma finish_documentE:
  assumes "finish_document fuel E logo revcloud_layers arc_radius d5 = Some (Inr doc')"
  obtains d6 msp' where "change_logos fuel E logo d5 = Some (Inr d6)"
    and "create_revcloud E (modelspace (remove_unused_layers d6)) revcloud_layers arc_radius = Inr msp'"
    and "doc' = (remove_unused_layers d6)\<lparr>modelspace := msp'\<rparr>"
  using assms by (auto simp: finish_document_def and_then_Inr Let_def)









text \<open>
  C10. The reset of the entities' color, line-weight and line-style to the values that
  stand for "by layer" runs before the logo merge, and nothing after the merge writes
  these attributes. So when the pass over a document succeeds, every entity of the
  (exploded) logo source that the library can copy is in the space of the output with the
  color, line-weight and line-style it has in the logo source, unless it is a closed
  polyline on a cloud layer, which the cloud step replaces. The output can therefore hold
  entities whose styling is not "by layer"; the example output holds the logo line of
  color 5 and line-weight 25.
\<close>

theorem logo_entities_keep_styling:
  assumes "adjust_document fuel E logo df revcloud_layers arc_radius doc = Some (Inr doc')"
    and "explode_drawing fuel E (blocks logo) (modelspace logo) = Some (Inr msp_source)"
    and "e \<in> set msp_source"
    and "entity_copyable E e"
    and "\<not> is_boundary revcloud_layers e"
  shows "e \<in> set (modelspace doc')
     \<and> (\<exists>x \<in> set (modelspace doc'). ent_color x = ent_color e
            \<and> ent_lineweight x = ent_lineweight e \<and> ent_linetype x = ent_linetype e)"
proof -
  from assms(1) obtain d5 where
    f: "finish_document fuel E logo revcloud_layers arc_radius d5 = Some (Inr doc')"
    by (auto simp: adjust_document_def and_then_Inr)
  from finish_documentE [OF f] obtain d6 msp' where
    l: "change_logos fuel E logo d5 = Some (Inr d6)"
    and c: "create_revcloud E (modelspace (remove_unused_layers d6)) revcloud_layers arc_radius = Inr msp'"
    and d: "doc' = (remove_unused_layers d6)\<lparr>modelspace := msp'\<rparr>"
    by blast
  have "e \<in> set (modelspace d6)"
    by (rule change_logos_copies [OF l assms(2,3,4)])
  then have "e \<in> set (modelspace (remove_unused_layers d6))" by simp
  then have "e \<in> set msp'"
    using assms(5) by (rule create_revcloud_keeps [OF c])
  then have "e \<in> set (modelspace doc')" using d by simp
  then show ?thesis by blast
qed

theorem logo_entities_keep_styling_witness:
  "adjust_document 1 plain_env logo_source [] [] 6 drawing = Some (Inr adjusted_drawing)
   \<and> explode_drawing 1 plain_env (blocks logo_source) (modelspace logo_source) = Some (Inr [logo_line])
   \<and> entity_copyable plain_env logo_line
   \<and> \<not> is_boundary [] logo_line
   \<and> logo_line \<in> set (modelspace adjusted_drawing)
   \<and> map ent_color (modelspace adjusted_drawing) = [256, 5]
   \<and> map ent_lineweight (modelspace adjusted_drawing) = [- 1, 25]
   \<and> map ent_linetype (modelspace adjusted_drawing) = [''BYLAYER'', ''Continuous'']
   \<and> ent_color logo_line = 5 \<and> ent_lineweight logo_line = 25
   \<and> ent_linetype logo_line = ''Continuous''"
proof -
  have h2: "explode_drawing 1 plain_env (blocks logo_source) (modelspace logo_source) = Some (Inr [logo_line])"
    by code_simp
  have h3: "logo_line \<in> set [logo_line]" by simp
  have h4: "entity_copyable plain_env logo_line" by (simp add: plain_env_def)
  have h5: "\<not> is_boundary [] logo_line" by (simp add: is_boundary_def)
  have s: "map ent_color (modelspace adjusted_drawing) = [256, 5]
     \<and> map ent_lineweight (modelspace adjusted_drawing) = [- 1, 25]
     \<and> map ent_linetype (modelspace adjusted_drawing) = [''BYLAYER'', ''Continuous'']
     \<and> ent_color logo_line = 5 \<and> ent_lineweight logo_line = 25
     \<and> ent_linetype logo_line = ''Continuous''"
    by (simp add: adjusted_drawing_def logo_line_def plain_entity_def)
  show ?thesis
    using logo_entities_keep_styling [OF adjust_drawing h2 h3 h4 h5] adjust_drawing h2 h4 h5 s
    by simp
qed

end
